theory Spec2Isabelle
  imports Main "HOL-Library.Word"
begin

section \<open>The RockPaperScissors contract\<close>

text \<open>
  A shallow embedding of the Solidity contract \<open>RockPaperScissors\<close> (Solidity 0.8.24).
  Unsigned integers are words of their width; the checked arithmetic of Solidity 0.8 is
  written out (an overflowing \<open>++\<close> is a panic that reverts the transaction). A mapping
  is a total function whose default is the all-zero value, as contract storage is. A
  reverted call is a value \<open>Inl e\<close>; a reverted transaction leaves the storage as it was.
  Events carry no state and are left out.
\<close>

subsection \<open>Types\<close>

type_synonym uint8 = "8 word"
type_synonym uint256 = "256 word"
type_synonym address = "160 word"
type_synonym bytes = "8 word list"
type_synonym bytes32 = "256 word"

text \<open>An encrypted value is the 32-byte handle the FHE library wraps.\<close>

type_synonym euint8 = bytes32
type_synonym externalEuint8 = bytes32

subsection \<open>Constants\<close>

definition ROCK :: uint8 where "ROCK = 1"
definition PAPER :: uint8 where "PAPER = 2"
definition SCISSORS :: uint8 where "SCISSORS = 3"

definition DRAW :: uint8 where "DRAW = 0"
definition WIN :: uint8 where "WIN = 1"
definition LOSS :: uint8 where "LOSS = 2"

subsection \<open>Structs and storage\<close>

record Game =
  player :: address
  encryptedPlayerMove :: euint8
  opponentMove :: uint8
  createdAt :: uint256
  isResolved :: bool
  result :: uint8
  revealedPlayerMove :: uint8
  resolveRequested :: bool

record PlayerStats =
  wins :: uint256
  losses :: uint256
  draws :: uint256
  totalGames :: uint256

record contract =
  gameIdCounter :: uint256
  games :: "uint256 \<Rightarrow> Game"
  playerActiveGame :: "address \<Rightarrow> uint256"
  playerStats :: "address \<Rightarrow> PlayerStats"

text \<open>The value of a storage slot that was never written.\<close>

definition zero_Game :: Game where
  "zero_Game = \<lparr>player = 0, encryptedPlayerMove = 0, opponentMove = 0, createdAt = 0,
     isResolved = False, result = 0, revealedPlayerMove = 0, resolveRequested = False\<rparr>"

definition zero_PlayerStats :: PlayerStats where
  "zero_PlayerStats = \<lparr>wins = 0, losses = 0, draws = 0, totalGames = 0\<rparr>"

text \<open>The storage after deployment: all zero, then \<open>gameIdCounter = 1\<close>.\<close>

definition constructor :: contract where
  "constructor = \<lparr>gameIdCounter = 1, games = (\<lambda>_. zero_Game),
     playerActiveGame = (\<lambda>_. 0), playerStats = (\<lambda>_. zero_PlayerStats)\<rparr>"

subsection \<open>The transaction context and the libraries the contract calls\<close>

record txn =
  msg_sender :: address
  block_timestamp :: uint256
  block_prevrandao :: uint256

text \<open>
  The FHE library and the hash function are not part of the contract: they are parameters.
  \<open>fromExternal\<close> checks an input proof for the caller and returns the handle, or reverts
  (\<open>None\<close>); \<open>makePubliclyDecryptable\<close> returns the handle it was given access to;
  \<open>checkSignatures\<close> reverts unless the decryption proof matches the handles and the
  cleartexts (\<open>False\<close> is the revert). \<open>FHE.allowThis\<close> and \<open>FHE.allow\<close> change the
  access-control list of the library, not the storage of the contract, and
  \<open>FHE.toBytes32\<close> unwraps a handle.
\<close>

record env =
  fromExternal :: "externalEuint8 \<Rightarrow> bytes \<Rightarrow> address \<Rightarrow> euint8 option"
  makePubliclyDecryptable :: "euint8 \<Rightarrow> euint8"
  checkSignatures :: "bytes32 list \<Rightarrow> bytes \<Rightarrow> bytes \<Rightarrow> bool"
  keccak256 :: "bytes \<Rightarrow> uint256"

text \<open>
  The reverts of the contract keep the message of their \<open>require\<close>. The others are the
  revert inside \<open>FHE.fromExternal\<close>, the revert inside \<open>FHE.checkSignatures\<close>, a failed
  \<open>abi.decode\<close> and the arithmetic panic of a checked increment.
\<close>

datatype error =
    Revert string
  | InputProofRejected
  | ProofVerificationFailed
  | AbiDecodeFailed
  | PanicOverflow

subsection \<open>Encoding\<close>

text \<open>\<open>abi.encodePacked\<close> of an unsigned value: its bytes, most significant first.\<close>

definition be_bytes :: "nat \<Rightarrow> 'a::len word \<Rightarrow> bytes" where
  "be_bytes n w = map (\<lambda>i. ucast (drop_bit (8 * i) w)) (rev [0..<n])"

definition be_nat :: "bytes \<Rightarrow> nat" where
  "be_nat bs = foldl (\<lambda>a b. a * 256 + unat b) 0 bs"

text \<open>
  \<open>abi.decode(cleartexts, (uint8))\<close>: the data must hold one 32-byte word, and the word
  must fit the type; anything after the first word is ignored.
\<close>

definition abi_decode_uint8 :: "bytes \<Rightarrow> uint8 option" where
  "abi_decode_uint8 bs =
     (if length bs < 32 then None
      else let v = be_nat (take 32 bs) in
           if v < 256 then Some (of_nat v) else None)"

subsection \<open>Helper functions\<close>

definition generateRandomMove :: "env \<Rightarrow> txn \<Rightarrow> contract \<Rightarrow> uint8" where
  "generateRandomMove e t s =
     (let random = keccak256 e
            (be_bytes 32 (block_timestamp t) @ be_bytes 32 (block_prevrandao t) @
             be_bytes 32 (gameIdCounter s) @ be_bytes 20 (msg_sender t))
      in ucast ((random mod 3) + 1))"

definition determineWinner :: "uint8 \<Rightarrow> uint8 \<Rightarrow> uint8" where
  "determineWinner playerMove opponentMove' =
     (if playerMove = opponentMove' then DRAW
      else if playerMove = ROCK \<and> opponentMove' = SCISSORS then WIN
      else if playerMove = SCISSORS \<and> opponentMove' = ROCK then LOSS
      else if playerMove = PAPER \<and> opponentMove' = ROCK then WIN
      else if playerMove = ROCK \<and> opponentMove' = PAPER then LOSS
      else if playerMove = SCISSORS \<and> opponentMove' = PAPER then WIN
      else if playerMove = PAPER \<and> opponentMove' = SCISSORS then LOSS
      else DRAW)"

subsection \<open>Core functions\<close>

definition playGame ::
  "env \<Rightarrow> txn \<Rightarrow> contract \<Rightarrow> externalEuint8 \<Rightarrow> bytes \<Rightarrow> error + contract \<times> uint256" where
  "playGame e t s encryptedMove inputProof =
     (if playerActiveGame s (msg_sender t) \<noteq> 0
      then Inl (Revert ''Player already has an active game'')
      else case fromExternal e encryptedMove inputProof (msg_sender t) of
        None \<Rightarrow> Inl InputProofRejected
      | Some playerMove \<Rightarrow>
          let opponentMove' = generateRandomMove e t s;
              gameId = gameIdCounter s
          in if gameIdCounter s = - 1 then Inl PanicOverflow
             else Inr (s\<lparr>gameIdCounter := gameIdCounter s + 1,
                         games := (games s)(gameId :=
                           \<lparr>player = msg_sender t,
                            encryptedPlayerMove = playerMove,
                            opponentMove = opponentMove',
                            createdAt = block_timestamp t,
                            isResolved = False,
                            result = 0,
                            revealedPlayerMove = 0,
                            resolveRequested = False\<rparr>),
                         playerActiveGame := (playerActiveGame s)(msg_sender t := gameId)\<rparr>,
                       gameId))"

definition requestResolve :: "env \<Rightarrow> txn \<Rightarrow> contract \<Rightarrow> uint256 \<Rightarrow> error + contract" where
  "requestResolve e t s gameId =
     (if \<not> gameId < gameIdCounter s then Inl (Revert ''Game does not exist'')
      else let game = games s gameId in
        if player game \<noteq> msg_sender t then Inl (Revert ''Only player can request resolve'')
        else if isResolved game then Inl (Revert ''Game already resolved'')
        else if resolveRequested game then Inl (Revert ''Resolve already requested'')
        else Inr (s\<lparr>games := (games s)(gameId :=
               game\<lparr>resolveRequested := True,
                    encryptedPlayerMove :=
                      makePubliclyDecryptable e (encryptedPlayerMove game)\<rparr>)\<rparr>))"

text \<open>The statistics update of \<open>resolveGame\<close>: each \<open>++\<close> is checked.\<close>

definition inc :: "uint256 \<Rightarrow> uint256 option" where
  "inc x = (if x = - 1 then None else Some (x + 1))"

definition updateStats :: "PlayerStats \<Rightarrow> uint8 \<Rightarrow> PlayerStats option" where
  "updateStats stats res =
     (case inc (totalGames stats) of
        None \<Rightarrow> None
      | Some tg \<Rightarrow>
          if res = WIN then
            (case inc (wins stats) of None \<Rightarrow> None
             | Some w \<Rightarrow> Some (stats\<lparr>totalGames := tg, wins := w\<rparr>))
          else if res = LOSS then
            (case inc (losses stats) of None \<Rightarrow> None
             | Some l \<Rightarrow> Some (stats\<lparr>totalGames := tg, losses := l\<rparr>))
          else
            (case inc (draws stats) of None \<Rightarrow> None
             | Some d \<Rightarrow> Some (stats\<lparr>totalGames := tg, draws := d\<rparr>)))"

definition resolveGame ::
  "env \<Rightarrow> contract \<Rightarrow> uint256 \<Rightarrow> bytes \<Rightarrow> bytes \<Rightarrow> error + contract" where
  "resolveGame e s gameId cleartexts decryptionProof =
     (if \<not> gameId < gameIdCounter s then Inl (Revert ''Game does not exist'')
      else let game = games s gameId in
        if isResolved game then Inl (Revert ''Game already resolved'')
        else if \<not> resolveRequested game then Inl (Revert ''Must request resolve first'')
        else if \<not> checkSignatures e [encryptedPlayerMove game] cleartexts decryptionProof
          then Inl ProofVerificationFailed
        else case abi_decode_uint8 cleartexts of
          None \<Rightarrow> Inl AbiDecodeFailed
        | Some playerMove \<Rightarrow>
            if \<not> (playerMove \<ge> ROCK \<and> playerMove \<le> SCISSORS)
            then Inl (Revert ''Invalid player move'')
            else let res = determineWinner playerMove (opponentMove game) in
              case updateStats (playerStats s (player game)) res of
                None \<Rightarrow> Inl PanicOverflow
              | Some stats \<Rightarrow>
                  Inr (s\<lparr>games := (games s)(gameId :=
                           game\<lparr>revealedPlayerMove := playerMove,
                                result := res,
                                isResolved := True\<rparr>),
                         playerStats := (playerStats s)(player game := stats),
                         playerActiveGame := (playerActiveGame s)(player game := 0)\<rparr>))"

definition cancelGame :: "txn \<Rightarrow> contract \<Rightarrow> error + contract" where
  "cancelGame t s =
     (let gameId = playerActiveGame s (msg_sender t) in
      if gameId = 0 then Inl (Revert ''No active game to cancel'')
      else let game = games s gameId in
        if isResolved game then Inl (Revert ''Game already resolved'')
        else Inr (s\<lparr>games := (games s)(gameId := game\<lparr>isResolved := True, result := DRAW\<rparr>),
                    playerActiveGame := (playerActiveGame s)(msg_sender t := 0)\<rparr>))"

subsection \<open>View functions\<close>

definition getGame ::
  "contract \<Rightarrow> uint256 \<Rightarrow> error + address \<times> uint8 \<times> uint256 \<times> bool \<times> uint8 \<times> uint8 \<times> bool" where
  "getGame s gameId =
     (if \<not> gameId < gameIdCounter s then Inl (Revert ''Game does not exist'')
      else let game = games s gameId in
        Inr (player game, opponentMove game, createdAt game, isResolved game,
             result game, revealedPlayerMove game, resolveRequested game))"

definition getPlayerStats :: "contract \<Rightarrow> address \<Rightarrow> uint256 \<times> uint256 \<times> uint256 \<times> uint256" where
  "getPlayerStats s p =
     (let stats = playerStats s p in (wins stats, losses stats, draws stats, totalGames stats))"

definition getPlayerActiveGame :: "contract \<Rightarrow> address \<Rightarrow> uint256" where
  "getPlayerActiveGame s p = playerActiveGame s p"

subsection \<open>Transactions\<close>

text \<open>
  A transaction is one external call in its context. A call that reverts leaves the
  storage unchanged.
\<close>

datatype call =
    PlayGame externalEuint8 bytes
  | RequestResolve uint256
  | ResolveGame uint256 bytes bytes
  | CancelGame

fun exec :: "env \<Rightarrow> contract \<Rightarrow> txn \<times> call \<Rightarrow> contract" where
  "exec e s (t, PlayGame encryptedMove inputProof) =
     (case playGame e t s encryptedMove inputProof of Inl _ \<Rightarrow> s | Inr (s', _) \<Rightarrow> s')"
| "exec e s (t, RequestResolve gameId) =
     (case requestResolve e t s gameId of Inl _ \<Rightarrow> s | Inr s' \<Rightarrow> s')"
| "exec e s (t, ResolveGame gameId cleartexts decryptionProof) =
     (case resolveGame e s gameId cleartexts decryptionProof of Inl _ \<Rightarrow> s | Inr s' \<Rightarrow> s')"
| "exec e s (t, CancelGame) =
     (case cancelGame t s of Inl _ \<Rightarrow> s | Inr s' \<Rightarrow> s')"

definition run :: "env \<Rightarrow> contract \<Rightarrow> (txn \<times> call) list \<Rightarrow> contract" where
  "run e s cs = foldl (exec e) s cs"

section \<open>Invariants, frames and concrete runs: definitions\<close>

text \<open>
  The ids handed out so far: the counter starts at 1 and \<open>playGame\<close> returns it and
  adds one, so these are the ids from 1 up to the counter (lemma \<open>created_ids_issued\<close>
  below shows that they are the ids \<open>playGame\<close> has returned).
\<close>

definition issued :: "contract \<Rightarrow> uint256 \<Rightarrow> bool" where
  "issued s g \<longleftrightarrow> 0 < g \<and> g < gameIdCounter s"

text \<open>
  The invariant of the index \<open>playerActiveGame\<close>. Slot 0 of \<open>games\<close> is never
  written by \<open>playGame\<close> and keeps the zero address as its player. An entry of the
  index names an issued game of that player; for a player other than the zero address
  the named game is unresolved, and every unresolved issued game is named by its
  player's entry.
\<close>

definition ledger_inv :: "contract \<Rightarrow> bool" where
  "ledger_inv s \<longleftrightarrow>
     0 < gameIdCounter s \<and>
     player (games s 0) = 0 \<and>
     (\<forall>p. playerActiveGame s p < gameIdCounter s) \<and>
     (\<forall>p. playerActiveGame s p \<noteq> 0 \<longrightarrow> player (games s (playerActiveGame s p)) = p) \<and>
     (\<forall>p. p \<noteq> 0 \<and> playerActiveGame s p \<noteq> 0 \<longrightarrow>
            \<not> isResolved (games s (playerActiveGame s p))) \<and>
     (\<forall>g. issued s g \<and> \<not> isResolved (games s g) \<and> player (games s g) \<noteq> 0 \<longrightarrow>
            playerActiveGame s (player (games s g)) = g)"

text \<open>What a transaction never changes.\<close>

definition frame :: "contract \<Rightarrow> contract \<Rightarrow> bool" where
  "frame s s' \<longleftrightarrow>
     unat (gameIdCounter s) \<le> unat (gameIdCounter s') \<and>
     (\<forall>g. g < gameIdCounter s \<longrightarrow>
        player (games s' g) = player (games s g) \<and>
        opponentMove (games s' g) = opponentMove (games s g) \<and>
        createdAt (games s' g) = createdAt (games s g) \<and>
        (isResolved (games s g) \<longrightarrow> games s' g = games s g))"

text \<open>
  An unresolved game has no result and no revealed move yet, and the opponent move of
  an issued game is a legal move.
\<close>

definition record_inv :: "contract \<Rightarrow> bool" where
  "record_inv s \<longleftrightarrow>
     (\<forall>g. \<not> isResolved (games s g) \<longrightarrow>
        revealedPlayerMove (games s g) = 0 \<and> result (games s g) = 0) \<and>
     (\<forall>g. issued s g \<longrightarrow> opponentMove (games s g) \<in> {ROCK, PAPER, SCISSORS})"

text \<open>
  The counters of a player add up, and none exceeds the number of resolved games: the
  checked increments of \<open>resolveGame\<close> therefore never overflow.
\<close>

definition stats_inv :: "contract \<Rightarrow> bool" where
  "stats_inv s \<longleftrightarrow>
     (\<forall>p. unat (wins (playerStats s p)) + unat (losses (playerStats s p)) +
            unat (draws (playerStats s p)) = unat (totalGames (playerStats s p)) \<and>
          unat (totalGames (playerStats s p)) \<le>
            card {g. g < gameIdCounter s \<and> isResolved (games s g)})"

definition resolved_ids :: "contract \<Rightarrow> uint256 set" where
  "resolved_ids s = {g. g < gameIdCounter s \<and> isResolved (games s g)}"

text \<open>
  Concrete runs. The stub of the libraries accepts every input proof, accepts the
  decryption proof \<open>[1]\<close> only, and hashes everything to 2, so that the opponent always
  plays Scissors. \<open>abi_encode_uint8\<close> is the 32-byte word that \<open>abi.decode\<close> reads
  back.
\<close>

definition stub_env :: env where
  "stub_env = \<lparr>fromExternal = (\<lambda>h _ _. Some h), makePubliclyDecryptable = (\<lambda>h. h),
     checkSignatures = (\<lambda>hs ct pr. pr = [1]), keccak256 = (\<lambda>_. 2)\<rparr>"

definition alice :: txn where
  "alice = \<lparr>msg_sender = 10, block_timestamp = 1000, block_prevrandao = 7\<rparr>"

definition abi_encode_uint8 :: "uint8 \<Rightarrow> bytes" where
  "abi_encode_uint8 m = replicate 31 0 @ [m]"

text \<open>The ids that the successful \<open>playGame\<close> calls of a run return, in order.\<close>

fun created_id :: "env \<Rightarrow> contract \<Rightarrow> txn \<times> call \<Rightarrow> uint256 list" where
  "created_id e s (t, PlayGame encryptedMove inputProof) =
     (case playGame e t s encryptedMove inputProof of Inl _ \<Rightarrow> [] | Inr (_, gameId) \<Rightarrow> [gameId])"
| "created_id e s (t, _) = []"

fun created_ids :: "env \<Rightarrow> contract \<Rightarrow> (txn \<times> call) list \<Rightarrow> uint256 list" where
  "created_ids e s [] = []"
| "created_ids e s (c # cs) = created_id e s c @ created_ids e (exec e s c) cs"

definition game_created :: "(txn \<times> call) list" where
  "game_created = [(alice, PlayGame 5 [])]"

definition resolve_requested :: "(txn \<times> call) list" where
  "resolve_requested = [(alice, PlayGame 5 []), (alice, RequestResolve 1)]"

section \<open>Lemmas\<close>

subsection \<open>The winner table and word arithmetic\<close>

lemma determineWinner_cases:
  "determineWinner p q =
     (if (p, q) \<in> {(1, 3), (2, 1), (3, 2)} then WIN
      else if (p, q) \<in> {(3, 1), (1, 2), (2, 3)} then LOSS
      else DRAW)"
  by (simp add: determineWinner_def ROCK_def PAPER_def SCISSORS_def WIN_def LOSS_def DRAW_def)

lemma unat_plus1: "c \<noteq> - 1 \<Longrightarrow> unat (c + 1) = unat c + 1" for c :: uint256
proof -
  assume "c \<noteq> - 1"
  then have "1 + c \<noteq> 0" by (simp add: add_eq_0_iff)
  then have "unat (1 + c) = Suc (unat c)" by (rule unatSuc)
  then show ?thesis by (simp add: add.commute)
qed

lemma less_plus1: "c \<noteq> - 1 \<Longrightarrow> (g < c + 1) = (g < c \<or> g = c)" for c :: uint256
  by (auto simp: word_less_nat_alt unat_plus1 word_unat_eq_iff)

lemma card_below: "card {g :: uint256. g < c} = unat c"
proof -
  have "unat ` {g :: uint256. g < c} = {0..<unat c}"
  proof (rule set_eqI, rule iffI)
    fix n assume "n \<in> unat ` {g :: uint256. g < c}"
    then show "n \<in> {0..<unat c}" by (auto simp: word_less_nat_alt)
  next
    fix n assume n: "n \<in> {0..<unat c}"
    have "unat c < 2 ^ 256" using unsigned_less [of c] by simp
    with n have "unat (of_nat n :: uint256) = n"
      by (simp add: unat_of_nat)
    with n have "(of_nat n :: uint256) < c" by (simp add: word_less_nat_alt)
    with \<open>unat (of_nat n :: uint256) = n\<close> show "n \<in> unat ` {g :: uint256. g < c}"
      by (metis (mono_tags, lifting) image_eqI mem_Collect_eq)
  qed
  moreover have "inj_on unat {g :: uint256. g < c}"
    by (simp add: inj_on_def word_unat_eq_iff)
  ultimately show ?thesis
    by (metis card_image card_atLeastLessThan diff_zero)
qed

lemma gen_val: "unat (ucast ((x :: uint256) mod 3 + 1) :: uint8) = unat x mod 3 + 1"
proof -
  have a: "unat (x mod 3) = unat x mod 3" by (simp add: unat_mod_distrib)
  have lt: "unat x mod 3 < 3" by simp
  have b: "x mod 3 \<noteq> - 1"
  proof
    assume "x mod 3 = - 1"
    then have "unat (x mod 3) = unat (- 1 :: uint256)" by simp
    with a lt show False by (simp add: unsigned_minus_1_eq_mask mask_eq_exp_minus_1)
  qed
  have c: "unat (x mod 3 + 1) = unat x mod 3 + 1"
    using unat_plus1 [OF b] a by simp
  have "unat (ucast (x mod 3 + 1) :: uint8) = unat (x mod 3 + 1) mod 2 ^ 8"
    by (simp add: unsigned_ucast_eq unsigned_take_bit_eq take_bit_eq_mod)
  with c lt show ?thesis by simp
qed

subsection \<open>The index invariant\<close>

lemma ledger_inv_constructor: "ledger_inv constructor"
  by (simp add: ledger_inv_def constructor_def zero_Game_def issued_def)

lemma ledger_inv_playGame:
  assumes "ledger_inv s" "playGame e t s em ip = Inr (s', gid)"
  shows "ledger_inv s'"
proof -
  let ?a = "msg_sender t" and ?c = "gameIdCounter s"
  from assms(2) obtain h where
    act: "playerActiveGame s ?a = 0" and nover: "?c \<noteq> - 1" and
    s': "s' = s\<lparr>gameIdCounter := ?c + 1,
             games := (games s)(?c := \<lparr>player = ?a, encryptedPlayerMove = h,
               opponentMove = generateRandomMove e t s, createdAt = block_timestamp t,
               isResolved = False, result = 0, revealedPlayerMove = 0,
               resolveRequested = False\<rparr>),
             playerActiveGame := (playerActiveGame s)(?a := ?c)\<rparr>"
    by (auto simp: playGame_def Let_def split: if_splits option.splits)
  from assms(1) have
    i1: "0 < ?c" and i2: "player (games s 0) = 0" and
    i3: "\<And>p. playerActiveGame s p < ?c" and
    i4: "\<And>p. playerActiveGame s p \<noteq> 0 \<Longrightarrow> player (games s (playerActiveGame s p)) = p" and
    i5: "\<And>p. p \<noteq> 0 \<Longrightarrow> playerActiveGame s p \<noteq> 0 \<Longrightarrow>
            \<not> isResolved (games s (playerActiveGame s p))" and
    i6: "\<And>g. issued s g \<Longrightarrow> \<not> isResolved (games s g) \<Longrightarrow> player (games s g) \<noteq> 0 \<Longrightarrow>
            playerActiveGame s (player (games s g)) = g"
    by (auto simp: ledger_inv_def)
  have lt: "\<And>g. (g < ?c + 1) = (g < ?c \<or> g = ?c)" by (rule less_plus1 [OF nover])
  have c0: "?c \<noteq> 0" using i1 by auto
  have c1: "0 < gameIdCounter s'" using i1 by (simp add: s' lt)
  have c2: "player (games s' 0) = 0" using i2 c0 by (simp add: s')
  have c3: "\<forall>p. playerActiveGame s' p < gameIdCounter s'"
    using i3 by (simp add: s' lt)
  have ne: "\<And>p. playerActiveGame s p \<noteq> ?c" using i3 by (metis less_irrefl)
  have c4: "\<forall>p. playerActiveGame s' p \<noteq> 0 \<longrightarrow> player (games s' (playerActiveGame s' p)) = p"
    using i4 ne by (simp add: s')
  have c5: "\<forall>p. p \<noteq> 0 \<and> playerActiveGame s' p \<noteq> 0 \<longrightarrow>
            \<not> isResolved (games s' (playerActiveGame s' p))"
    using i5 ne by (simp add: s')
  have c6: "\<forall>g. issued s' g \<and> \<not> isResolved (games s' g) \<and> player (games s' g) \<noteq> 0 \<longrightarrow>
            playerActiveGame s' (player (games s' g)) = g"
  proof (intro allI impI, elim conjE)
    fix g assume g: "issued s' g" "\<not> isResolved (games s' g)" "player (games s' g) \<noteq> 0"
    show "playerActiveGame s' (player (games s' g)) = g"
    proof (cases "g = ?c")
      case True then show ?thesis by (simp add: s')
    next
      case False
      with g have "issued s g" by (simp add: issued_def s' lt)
      with g False have eq: "playerActiveGame s (player (games s g)) = g"
        using i6 [of g] by (simp add: s')
      with \<open>issued s g\<close> act have "player (games s g) \<noteq> ?a" by (auto simp: issued_def)
      with eq False show ?thesis by (simp add: s')
    qed
  qed
  show ?thesis unfolding ledger_inv_def using c1 c2 c3 c4 c5 c6 by blast
qed

lemma ledger_inv_requestResolve:
  assumes "ledger_inv s" "requestResolve e t s gid = Inr s'"
  shows "ledger_inv s'"
proof -
  from assms(2) have s': "s' = s\<lparr>games := (games s)(gid :=
      (games s gid)\<lparr>resolveRequested := True,
        encryptedPlayerMove := makePubliclyDecryptable e (encryptedPlayerMove (games s gid))\<rparr>)\<rparr>"
    by (auto simp: requestResolve_def Let_def split: if_splits)
  have g: "\<And>g. player (games s' g) = player (games s g)"
      "\<And>g. isResolved (games s' g) = isResolved (games s g)"
    by (simp_all add: s')
  have o: "gameIdCounter s' = gameIdCounter s" "playerActiveGame s' = playerActiveGame s"
    by (simp_all add: s')
  show ?thesis using assms(1) by (simp add: ledger_inv_def issued_def g o)
qed

lemma resolveGame_Inr:
  assumes "resolveGame e s gid ct pr = Inr s'"
  shows "\<exists>m st.
    gid < gameIdCounter s \<and> \<not> isResolved (games s gid) \<and> resolveRequested (games s gid) \<and>
    checkSignatures e [encryptedPlayerMove (games s gid)] ct pr \<and>
    abi_decode_uint8 ct = Some m \<and> ROCK \<le> m \<and> m \<le> SCISSORS \<and>
    updateStats (playerStats s (player (games s gid)))
       (determineWinner m (opponentMove (games s gid))) = Some st \<and>
    s' = s\<lparr>games := (games s)(gid := (games s gid)\<lparr>revealedPlayerMove := m,
               result := determineWinner m (opponentMove (games s gid)), isResolved := True\<rparr>),
             playerStats := (playerStats s)(player (games s gid) := st),
             playerActiveGame := (playerActiveGame s)(player (games s gid) := 0)\<rparr>"
proof (cases "abi_decode_uint8 ct")
  case None
  with assms show ?thesis by (simp add: resolveGame_def Let_def split: if_splits)
next
  case (Some m)
  show ?thesis
  proof (cases "updateStats (playerStats s (player (games s gid)))
       (determineWinner m (opponentMove (games s gid)))")
    case None
    with assms Some show ?thesis by (simp add: resolveGame_def Let_def split: if_splits)
  next
    case (Some st)
    with assms \<open>abi_decode_uint8 ct = Some m\<close> show ?thesis
      by (simp add: resolveGame_def Let_def split: if_splits)
  qed
qed

lemma ledger_inv_resolveGame:
  assumes "ledger_inv s" "resolveGame e s gid ct pr = Inr s'"
  shows "ledger_inv s'"
proof -
  let ?q = "player (games s gid)"
  from resolveGame_Inr [OF assms(2)] obtain m st where
    lt: "gid < gameIdCounter s" and unres: "\<not> isResolved (games s gid)" and
    s': "s' = s\<lparr>games := (games s)(gid := (games s gid)\<lparr>revealedPlayerMove := m,
               result := determineWinner m (opponentMove (games s gid)), isResolved := True\<rparr>),
             playerStats := (playerStats s)(?q := st),
             playerActiveGame := (playerActiveGame s)(?q := 0)\<rparr>"
    by blast
  from assms(1) have
    i1: "0 < gameIdCounter s" and i2: "player (games s 0) = 0" and
    i3: "\<And>p. playerActiveGame s p < gameIdCounter s" and
    i4: "\<And>p. playerActiveGame s p \<noteq> 0 \<Longrightarrow> player (games s (playerActiveGame s p)) = p" and
    i5: "\<And>p. p \<noteq> 0 \<Longrightarrow> playerActiveGame s p \<noteq> 0 \<Longrightarrow>
            \<not> isResolved (games s (playerActiveGame s p))" and
    i6: "\<And>g. issued s g \<Longrightarrow> \<not> isResolved (games s g) \<Longrightarrow> player (games s g) \<noteq> 0 \<Longrightarrow>
            playerActiveGame s (player (games s g)) = g"
    by (auto simp: ledger_inv_def)
  have pl: "\<And>g. player (games s' g) = player (games s g)" by (simp add: s')
  have c1: "0 < gameIdCounter s'" using i1 by (simp add: s')
  have c2: "player (games s' 0) = 0" using i2 by (simp add: pl)
  have c3: "\<forall>p. playerActiveGame s' p < gameIdCounter s'"
    using i3 i1 by (simp add: s')
  have c4: "\<forall>p. playerActiveGame s' p \<noteq> 0 \<longrightarrow> player (games s' (playerActiveGame s' p)) = p"
    using i4 by (simp add: pl) (simp add: s')
  have c5: "\<forall>p. p \<noteq> 0 \<and> playerActiveGame s' p \<noteq> 0 \<longrightarrow>
            \<not> isResolved (games s' (playerActiveGame s' p))"
  proof (intro allI impI, elim conjE)
    fix p assume p: "p \<noteq> 0" "playerActiveGame s' p \<noteq> 0"
    then have pq: "p \<noteq> ?q" and a: "playerActiveGame s p \<noteq> 0"
      by (auto simp: s' split: if_splits)
    from i4 [OF a] pq have "playerActiveGame s p \<noteq> gid" by auto
    with i5 [OF p(1) a] pq show "\<not> isResolved (games s' (playerActiveGame s' p))"
      by (simp add: s')
  qed
  have c6: "\<forall>g. issued s' g \<and> \<not> isResolved (games s' g) \<and> player (games s' g) \<noteq> 0 \<longrightarrow>
            playerActiveGame s' (player (games s' g)) = g"
  proof (intro allI impI, elim conjE)
    fix g assume g: "issued s' g" "\<not> isResolved (games s' g)" "player (games s' g) \<noteq> 0"
    then have ne: "g \<noteq> gid" by (auto simp: s')
    with g have g': "issued s g" "\<not> isResolved (games s g)" "player (games s g) \<noteq> 0"
      by (simp_all add: s' issued_def)
    then have eq: "playerActiveGame s (player (games s g)) = g" by (rule i6)
    have "player (games s g) \<noteq> ?q"
    proof
      assume same: "player (games s g) = ?q"
      with g'(3) i2 have "gid \<noteq> 0" by auto
      then have "issued s gid" using lt by (simp add: issued_def word_neq_0_conv)
      then have "playerActiveGame s ?q = gid"
        using i6 [of gid] unres same g'(3) by metis
      with same eq have "g = gid" by metis
      with ne show False by simp
    qed
    with eq ne show "playerActiveGame s' (player (games s' g)) = g"
      by (simp add: s')
  qed
  show ?thesis unfolding ledger_inv_def using c1 c2 c3 c4 c5 c6 by blast
qed

lemma cancelGame_Inr:
  assumes "cancelGame t s = Inr s'"
  shows "playerActiveGame s (msg_sender t) \<noteq> 0 \<and>
         \<not> isResolved (games s (playerActiveGame s (msg_sender t))) \<and>
         s' = s\<lparr>games := (games s)(playerActiveGame s (msg_sender t) :=
                   (games s (playerActiveGame s (msg_sender t)))\<lparr>isResolved := True, result := DRAW\<rparr>),
                 playerActiveGame := (playerActiveGame s)(msg_sender t := 0)\<rparr>"
  using assms by (auto simp: cancelGame_def Let_def split: if_splits)

lemma ledger_inv_cancelGame:
  assumes "ledger_inv s" "cancelGame t s = Inr s'"
  shows "ledger_inv s'"
proof -
  let ?a = "msg_sender t"
  let ?h = "playerActiveGame s ?a"
  from cancelGame_Inr [OF assms(2)] have
    h0: "?h \<noteq> 0" and unres: "\<not> isResolved (games s ?h)" and
    s': "s' = s\<lparr>games := (games s)(?h := (games s ?h)\<lparr>isResolved := True, result := DRAW\<rparr>),
                 playerActiveGame := (playerActiveGame s)(?a := 0)\<rparr>"
    by auto
  from assms(1) have
    i1: "0 < gameIdCounter s" and i2: "player (games s 0) = 0" and
    i3: "\<And>p. playerActiveGame s p < gameIdCounter s" and
    i4: "\<And>p. playerActiveGame s p \<noteq> 0 \<Longrightarrow> player (games s (playerActiveGame s p)) = p" and
    i5: "\<And>p. p \<noteq> 0 \<Longrightarrow> playerActiveGame s p \<noteq> 0 \<Longrightarrow>
            \<not> isResolved (games s (playerActiveGame s p))" and
    i6: "\<And>g. issued s g \<Longrightarrow> \<not> isResolved (games s g) \<Longrightarrow> player (games s g) \<noteq> 0 \<Longrightarrow>
            playerActiveGame s (player (games s g)) = g"
    by (auto simp: ledger_inv_def)
  have pl: "\<And>g. player (games s' g) = player (games s g)" by (simp add: s')
  have own: "player (games s ?h) = ?a" by (rule i4 [OF h0])
  have c1: "0 < gameIdCounter s'" using i1 by (simp add: s')
  have c2: "player (games s' 0) = 0" using i2 by (simp add: pl)
  have c3: "\<forall>p. playerActiveGame s' p < gameIdCounter s'"
    using i3 i1 by (simp add: s')
  have c4: "\<forall>p. playerActiveGame s' p \<noteq> 0 \<longrightarrow> player (games s' (playerActiveGame s' p)) = p"
    using i4 by (simp add: pl) (simp add: s')
  have c5: "\<forall>p. p \<noteq> 0 \<and> playerActiveGame s' p \<noteq> 0 \<longrightarrow>
            \<not> isResolved (games s' (playerActiveGame s' p))"
  proof (intro allI impI, elim conjE)
    fix p assume p: "p \<noteq> 0" "playerActiveGame s' p \<noteq> 0"
    then have pa: "p \<noteq> ?a" and a: "playerActiveGame s p \<noteq> 0"
      by (auto simp: s' split: if_splits)
    from i4 [OF a] pa own have "playerActiveGame s p \<noteq> ?h" by auto
    with i5 [OF p(1) a] pa show "\<not> isResolved (games s' (playerActiveGame s' p))"
      by (simp add: s')
  qed
  have c6: "\<forall>g. issued s' g \<and> \<not> isResolved (games s' g) \<and> player (games s' g) \<noteq> 0 \<longrightarrow>
            playerActiveGame s' (player (games s' g)) = g"
  proof (intro allI impI, elim conjE)
    fix g assume g: "issued s' g" "\<not> isResolved (games s' g)" "player (games s' g) \<noteq> 0"
    then have ne: "g \<noteq> ?h" by (auto simp: s')
    with g have g': "issued s g" "\<not> isResolved (games s g)" "player (games s g) \<noteq> 0"
      by (simp_all add: s' issued_def)
    then have eq: "playerActiveGame s (player (games s g)) = g" by (rule i6)
    with ne have "player (games s g) \<noteq> ?a" by auto
    with eq ne show "playerActiveGame s' (player (games s' g)) = g"
      by (simp add: s')
  qed
  show ?thesis unfolding ledger_inv_def using c1 c2 c3 c4 c5 c6 by blast
qed

lemma ledger_inv_exec: "ledger_inv s \<Longrightarrow> ledger_inv (exec e s c)"
proof -
  assume i: "ledger_inv s"
  obtain t k where c: "c = (t, k)" by (cases c)
  show ?thesis
  proof (cases k)
    case (PlayGame em ip)
    with i c show ?thesis
      by (auto split: sum.splits dest: ledger_inv_playGame)
  next
    case (RequestResolve g)
    with i c show ?thesis
      by (auto split: sum.splits dest: ledger_inv_requestResolve)
  next
    case (ResolveGame g ct pr)
    with i c show ?thesis
      by (auto split: sum.splits dest: ledger_inv_resolveGame)
  next
    case CancelGame
    with i c show ?thesis
      by (auto split: sum.splits dest: ledger_inv_cancelGame)
  qed
qed

lemma ledger_inv_foldl: "ledger_inv s \<Longrightarrow> ledger_inv (foldl (exec e) s cs)"
  by (induction cs arbitrary: s) (simp_all add: ledger_inv_exec)

lemma ledger_inv_run: "ledger_inv (run e constructor cs)"
  unfolding run_def by (rule ledger_inv_foldl [OF ledger_inv_constructor])

subsection \<open>What every transaction preserves\<close>

lemma playGame_Inr:
  assumes "playGame e t s em ip = Inr (s', gid)"
  shows "\<exists>h. playerActiveGame s (msg_sender t) = 0 \<and> gameIdCounter s \<noteq> - 1 \<and>
    fromExternal e em ip (msg_sender t) = Some h \<and> gid = gameIdCounter s \<and>
    s' = s\<lparr>gameIdCounter := gameIdCounter s + 1,
             games := (games s)(gameIdCounter s := \<lparr>player = msg_sender t,
               encryptedPlayerMove = h,
               opponentMove = generateRandomMove e t s, createdAt = block_timestamp t,
               isResolved = False, result = 0, revealedPlayerMove = 0,
               resolveRequested = False\<rparr>),
             playerActiveGame := (playerActiveGame s)(msg_sender t := gameIdCounter s)\<rparr>"
  using assms by (auto simp: playGame_def Let_def split: if_splits option.splits)

lemma requestResolve_Inr:
  assumes "requestResolve e t s gid = Inr s'"
  shows "gid < gameIdCounter s \<and> player (games s gid) = msg_sender t \<and>
    \<not> isResolved (games s gid) \<and> \<not> resolveRequested (games s gid) \<and>
    s' = s\<lparr>games := (games s)(gid := (games s gid)\<lparr>resolveRequested := True,
        encryptedPlayerMove := makePubliclyDecryptable e (encryptedPlayerMove (games s gid))\<rparr>)\<rparr>"
  using assms by (auto simp: requestResolve_def Let_def split: if_splits)

lemma frame_refl: "frame s s"
  by (simp add: frame_def)

lemma frame_trans: "frame s s' \<Longrightarrow> frame s' s'' \<Longrightarrow> frame s s''"
  unfolding frame_def word_less_nat_alt
  by (metis le_trans less_le_trans)

lemma frame_playGame: "playGame e t s em ip = Inr (s', gid) \<Longrightarrow> frame s s'"
  by (drule playGame_Inr) (auto simp: frame_def unat_plus1)

lemma frame_requestResolve: "requestResolve e t s gid = Inr s' \<Longrightarrow> frame s s'"
  by (drule requestResolve_Inr) (auto simp: frame_def)

lemma frame_resolveGame: "resolveGame e s gid ct pr = Inr s' \<Longrightarrow> frame s s'"
  by (drule resolveGame_Inr) (auto simp: frame_def)

lemma frame_cancelGame: "cancelGame t s = Inr s' \<Longrightarrow> frame s s'"
  by (drule cancelGame_Inr) (auto simp: frame_def)

lemma frame_exec: "frame s (exec e s c)"
proof -
  obtain t k where c: "c = (t, k)" by (cases c)
  show ?thesis
  proof (cases k)
    case (PlayGame em ip)
    with c show ?thesis
      by (auto split: sum.splits simp: frame_refl dest: frame_playGame)
  next
    case (RequestResolve g)
    with c show ?thesis
      by (auto split: sum.splits simp: frame_refl dest: frame_requestResolve)
  next
    case (ResolveGame g ct pr)
    with c show ?thesis
      by (auto split: sum.splits simp: frame_refl dest: frame_resolveGame)
  next
    case CancelGame
    with c show ?thesis
      by (auto split: sum.splits simp: frame_refl dest: frame_cancelGame)
  qed
qed

lemma frame_foldl: "frame s (foldl (exec e) s cs)"
proof (induction cs arbitrary: s)
  case Nil
  show ?case by (simp add: frame_refl)
next
  case (Cons c cs)
  have "frame s (exec e s c)" by (rule frame_exec)
  moreover have "frame (exec e s c) (foldl (exec e) (exec e s c) cs)" by (rule Cons.IH)
  ultimately show ?case by (simp add: frame_trans)
qed

lemma frame_run: "frame s (run e s cs)"
  unfolding run_def by (rule frame_foldl)

subsection \<open>Game records and statistics\<close>

lemma generateRandomMove_unat:
  "unat (generateRandomMove e t s) =
     unat (keccak256 e (be_bytes 32 (block_timestamp t) @ be_bytes 32 (block_prevrandao t) @
             be_bytes 32 (gameIdCounter s) @ be_bytes 20 (msg_sender t))) mod 3 + 1"
  by (simp add: generateRandomMove_def Let_def gen_val)

lemma generateRandomMove_range: "generateRandomMove e t s \<in> {ROCK, PAPER, SCISSORS}"
proof -
  let ?r = "unat (keccak256 e (be_bytes 32 (block_timestamp t) @ be_bytes 32 (block_prevrandao t) @
             be_bytes 32 (gameIdCounter s) @ be_bytes 20 (msg_sender t)))"
  have "?r mod 3 = 0 \<or> ?r mod 3 = 1 \<or> ?r mod 3 = 2" by arith
  then have "unat (generateRandomMove e t s) = unat (1 :: uint8) \<or>
      unat (generateRandomMove e t s) = unat (2 :: uint8) \<or>
      unat (generateRandomMove e t s) = unat (3 :: uint8)"
    by (auto simp: generateRandomMove_unat)
  then show ?thesis
    by (auto simp: ROCK_def PAPER_def SCISSORS_def word_unat_eq_iff)
qed

lemma record_inv_constructor: "record_inv constructor"
  by (simp add: record_inv_def constructor_def zero_Game_def issued_def)

lemma record_inv_preserved:
  assumes "record_inv s" "gameIdCounter s' = gameIdCounter s"
    and "\<And>g. opponentMove (games s' g) = opponentMove (games s g)"
    and "\<And>g. \<not> isResolved (games s' g) \<Longrightarrow> \<not> isResolved (games s g) \<and>
           revealedPlayerMove (games s' g) = revealedPlayerMove (games s g) \<and>
           result (games s' g) = result (games s g)"
  shows "record_inv s'"
  using assms(1,4) unfolding record_inv_def issued_def assms(2,3) by metis

lemma record_inv_exec: "record_inv s \<Longrightarrow> record_inv (exec e s c)"
proof -
  assume i: "record_inv s"
  obtain t k where c: "c = (t, k)" by (cases c)
  show ?thesis
  proof (cases k)
    case (PlayGame em ip)
    show ?thesis
    proof (cases "playGame e t s em ip")
      case (Inl a) with i c PlayGame show ?thesis by simp
    next
      case (Inr r)
      obtain s' gid where r: "r = (s', gid)" by (cases r)
      from playGame_Inr [OF Inr [unfolded r]] obtain h where
        nover: "gameIdCounter s \<noteq> - 1" and
        s': "s' = s\<lparr>gameIdCounter := gameIdCounter s + 1,
             games := (games s)(gameIdCounter s := \<lparr>player = msg_sender t,
               encryptedPlayerMove = h,
               opponentMove = generateRandomMove e t s, createdAt = block_timestamp t,
               isResolved = False, result = 0, revealedPlayerMove = 0,
               resolveRequested = False\<rparr>),
             playerActiveGame := (playerActiveGame s)(msg_sender t := gameIdCounter s)\<rparr>"
        by blast
      have "record_inv s'"
        unfolding record_inv_def
      proof (intro conjI allI impI)
        fix g assume "\<not> isResolved (games s' g)"
        with i show "revealedPlayerMove (games s' g) = 0"
          by (cases "g = gameIdCounter s") (simp_all add: s' record_inv_def)
      next
        fix g assume "\<not> isResolved (games s' g)"
        with i show "result (games s' g) = 0"
          by (cases "g = gameIdCounter s") (simp_all add: s' record_inv_def)
      next
        fix g assume g: "issued s' g"
        show "opponentMove (games s' g) \<in> {ROCK, PAPER, SCISSORS}"
        proof (cases "g = gameIdCounter s")
          case True
          with generateRandomMove_range [of e t s] show ?thesis by (simp add: s')
        next
          case False
          with g have "issued s g" by (simp add: issued_def s' less_plus1 [OF nover])
          with i False show ?thesis by (simp add: s' record_inv_def)
        qed
      qed
      with c PlayGame Inr r show ?thesis by simp
    qed
  next
    case (RequestResolve g)
    show ?thesis
    proof (cases "requestResolve e t s g")
      case (Inl a) with i c RequestResolve show ?thesis by simp
    next
      case (Inr s')
      from requestResolve_Inr [OF Inr] have "record_inv s'"
        by (intro record_inv_preserved [OF i]) (auto split: if_splits)
      with c RequestResolve Inr show ?thesis by simp
    qed
  next
    case (ResolveGame g ct pr)
    show ?thesis
    proof (cases "resolveGame e s g ct pr")
      case (Inl a) with i c ResolveGame show ?thesis by simp
    next
      case (Inr s')
      from resolveGame_Inr [OF Inr] have "record_inv s'"
        by (intro record_inv_preserved [OF i]) (auto split: if_splits)
      with c ResolveGame Inr show ?thesis by simp
    qed
  next
    case CancelGame
    show ?thesis
    proof (cases "cancelGame t s")
      case (Inl a) with i c CancelGame show ?thesis by simp
    next
      case (Inr s')
      from cancelGame_Inr [OF Inr] have "record_inv s'"
        by (intro record_inv_preserved [OF i]) (auto split: if_splits)
      with c CancelGame Inr show ?thesis by simp
    qed
  qed
qed

lemma record_inv_foldl: "record_inv s \<Longrightarrow> record_inv (foldl (exec e) s cs)"
  by (induction cs arbitrary: s) (simp_all add: record_inv_exec)

lemma record_inv_run: "record_inv (run e constructor cs)"
  unfolding run_def by (rule record_inv_foldl [OF record_inv_constructor])

lemma inc_Some: "inc x = Some y \<Longrightarrow> unat y = unat x + 1"
  by (auto simp: inc_def unat_plus1 split: if_splits)

lemma updateStats_Some:
  assumes "updateStats st r = Some st'"
  shows "unat (totalGames st') = unat (totalGames st) + 1 \<and>
     unat (wins st') = unat (wins st) + (if r = WIN then 1 else 0) \<and>
     unat (losses st') = unat (losses st) + (if r \<noteq> WIN \<and> r = LOSS then 1 else 0) \<and>
     unat (draws st') = unat (draws st) + (if r \<noteq> WIN \<and> r \<noteq> LOSS then 1 else 0)"
  using assms
  by (auto simp: updateStats_def split: option.splits if_splits dest!: inc_Some)

lemma updateStats_succeeds:
  assumes "unat (wins st) + unat (losses st) + unat (draws st) = unat (totalGames st)"
    and "unat (totalGames st) < 2 ^ 256 - 1"
  shows "\<exists>st'. updateStats st r = Some st'"
proof -
  have m: "unat (- 1 :: uint256) = 2 ^ 256 - 1"
    by (simp add: unsigned_minus_1_eq_mask mask_eq_exp_minus_1)
  have "totalGames st \<noteq> - 1" "wins st \<noteq> - 1" "losses st \<noteq> - 1" "draws st \<noteq> - 1"
    using assms m by auto
  then show ?thesis by (simp add: updateStats_def inc_def)
qed

lemma stats_inv_alt:
  "stats_inv s \<longleftrightarrow>
     (\<forall>p. unat (wins (playerStats s p)) + unat (losses (playerStats s p)) +
            unat (draws (playerStats s p)) = unat (totalGames (playerStats s p)) \<and>
          unat (totalGames (playerStats s p)) \<le> card (resolved_ids s))"
  by (simp add: stats_inv_def resolved_ids_def)

lemma stats_inv_constructor: "stats_inv constructor"
  by (simp add: stats_inv_def constructor_def zero_PlayerStats_def)

lemma stats_inv_mono:
  assumes "stats_inv s" "playerStats s' = playerStats s" "resolved_ids s \<subseteq> resolved_ids s'"
  shows "stats_inv s'"
proof -
  have "card (resolved_ids s) \<le> card (resolved_ids s')"
    by (rule card_mono [OF _ assms(3)]) simp
  with assms(1) show ?thesis
    unfolding stats_inv_alt assms(2) by (meson le_trans)
qed

lemma stats_inv_playGame:
  assumes "stats_inv s" "playGame e t s em ip = Inr (s', gid)"
  shows "stats_inv s'"
proof -
  from playGame_Inr [OF assms(2)] show ?thesis
    by (intro stats_inv_mono [OF assms(1)]) (auto simp: resolved_ids_def less_plus1)
qed

lemma stats_inv_requestResolve:
  assumes "stats_inv s" "requestResolve e t s gid = Inr s'"
  shows "stats_inv s'"
proof -
  from requestResolve_Inr [OF assms(2)] show ?thesis
    by (intro stats_inv_mono [OF assms(1)]) (auto simp: resolved_ids_def)
qed

lemma stats_inv_cancelGame:
  assumes "stats_inv s" "cancelGame t s = Inr s'"
  shows "stats_inv s'"
proof -
  from cancelGame_Inr [OF assms(2)] show ?thesis
    by (intro stats_inv_mono [OF assms(1)]) (auto simp: resolved_ids_def)
qed

lemma stats_inv_resolveGame:
  assumes "stats_inv s" "resolveGame e s gid ct pr = Inr s'"
  shows "stats_inv s'"
proof -
  let ?q = "player (games s gid)"
  from resolveGame_Inr [OF assms(2)] obtain m st where
    lt: "gid < gameIdCounter s" and unres: "\<not> isResolved (games s gid)" and
    us: "updateStats (playerStats s ?q) (determineWinner m (opponentMove (games s gid))) = Some st" and
    s': "s' = s\<lparr>games := (games s)(gid := (games s gid)\<lparr>revealedPlayerMove := m,
               result := determineWinner m (opponentMove (games s gid)), isResolved := True\<rparr>),
             playerStats := (playerStats s)(?q := st),
             playerActiveGame := (playerActiveGame s)(?q := 0)\<rparr>"
    by blast
  have "resolved_ids s' = insert gid (resolved_ids s)"
    using lt by (auto simp: resolved_ids_def s')
  moreover have "gid \<notin> resolved_ids s" using unres by (simp add: resolved_ids_def)
  ultimately have card: "card (resolved_ids s') = card (resolved_ids s) + 1"
    by simp
  note u = updateStats_Some [OF us]
  show ?thesis
    unfolding stats_inv_alt
  proof (intro allI)
    fix p
    from assms(1) have ip: "unat (wins (playerStats s p)) + unat (losses (playerStats s p)) +
            unat (draws (playerStats s p)) = unat (totalGames (playerStats s p))"
        "unat (totalGames (playerStats s p)) \<le> card (resolved_ids s)"
      by (simp_all add: stats_inv_alt)
    show "unat (wins (playerStats s' p)) + unat (losses (playerStats s' p)) +
            unat (draws (playerStats s' p)) = unat (totalGames (playerStats s' p)) \<and>
          unat (totalGames (playerStats s' p)) \<le> card (resolved_ids s')"
    proof (cases "p = ?q")
      case True
      with ip u card show ?thesis by (simp add: s')
    next
      case False
      with ip card show ?thesis by (simp add: s')
    qed
  qed
qed

lemma stats_inv_exec: "stats_inv s \<Longrightarrow> stats_inv (exec e s c)"
proof -
  assume i: "stats_inv s"
  obtain t k where c: "c = (t, k)" by (cases c)
  show ?thesis
  proof (cases k)
    case (PlayGame em ip)
    with i c show ?thesis
      by (auto split: sum.splits dest: stats_inv_playGame)
  next
    case (RequestResolve g)
    with i c show ?thesis
      by (auto split: sum.splits dest: stats_inv_requestResolve)
  next
    case (ResolveGame g ct pr)
    with i c show ?thesis
      by (auto split: sum.splits dest: stats_inv_resolveGame)
  next
    case CancelGame
    with i c show ?thesis
      by (auto split: sum.splits dest: stats_inv_cancelGame)
  qed
qed

lemma stats_inv_foldl: "stats_inv s \<Longrightarrow> stats_inv (foldl (exec e) s cs)"
  by (induction cs arbitrary: s) (simp_all add: stats_inv_exec)

lemma stats_inv_run: "stats_inv (run e constructor cs)"
  unfolding run_def by (rule stats_inv_foldl [OF stats_inv_constructor])

lemma stats_no_overflow:
  assumes "stats_inv s" "gid < gameIdCounter s" "\<not> isResolved (games s gid)"
  shows "unat (totalGames (playerStats s p)) < 2 ^ 256 - 1"
proof -
  have "resolved_ids s \<subseteq> {g. g < gameIdCounter s} - {gid}"
    using assms(3) by (auto simp: resolved_ids_def)
  then have "card (resolved_ids s) \<le> card ({g. g < gameIdCounter s} - {gid})"
    by (intro card_mono) simp_all
  also have "\<dots> = unat (gameIdCounter s) - 1"
    using assms(2) by (simp add: card_below)
  finally have "card (resolved_ids s) \<le> unat (gameIdCounter s) - 1" .
  moreover have "unat (gameIdCounter s) < 2 ^ 256"
    using unsigned_less [of "gameIdCounter s"] by simp
  moreover have "0 < unat (gameIdCounter s)"
    using assms(2) by (simp add: word_less_nat_alt)
  moreover have "unat (totalGames (playerStats s p)) \<le> card (resolved_ids s)"
    using assms(1) by (simp add: stats_inv_alt)
  ultimately show ?thesis by linarith
qed

subsection \<open>Decoding, transactions by cases, issued ids\<close>

lemma be_nat_zeros: "foldl (\<lambda>a b. a * 256 + unat b) 0 (replicate n (0 :: 8 word)) = 0"
  by (induction n) simp_all

lemma abi_decode_encode: "abi_decode_uint8 (abi_encode_uint8 m) = Some m"
proof -
  have "be_nat (replicate 31 0 @ [m]) = unat m"
    by (simp add: be_nat_def be_nat_zeros)
  moreover have "unat m < 256" using unsigned_less [of m] by simp
  ultimately show ?thesis
    by (simp add: abi_decode_uint8_def abi_encode_uint8_def)
qed

lemmas stub_defs = run_def playGame_def requestResolve_def resolveGame_def cancelGame_def
  stub_env_def alice_def constructor_def generateRandomMove_def abi_decode_encode
  updateStats_def inc_def zero_PlayerStats_def zero_Game_def determineWinner_def
  ROCK_def PAPER_def SCISSORS_def WIN_def LOSS_def DRAW_def

lemma exec_cases:
  obtains (Unchanged) "exec e s c = s"
  | (Played) t em ip gid where "c = (t, PlayGame em ip)" "playGame e t s em ip = Inr (exec e s c, gid)"
  | (Requested) t gid where "c = (t, RequestResolve gid)" "requestResolve e t s gid = Inr (exec e s c)"
  | (Resolved) t gid ct pr where "c = (t, ResolveGame gid ct pr)" "resolveGame e s gid ct pr = Inr (exec e s c)"
  | (Cancelled) t where "c = (t, CancelGame)" "cancelGame t s = Inr (exec e s c)"
proof -
  obtain t k where c: "c = (t, k)" by (cases c)
  show ?thesis
  proof (cases k)
    case (PlayGame em ip)
    show ?thesis
    proof (cases "playGame e t s em ip")
      case (Inl a) with c PlayGame show ?thesis by (intro Unchanged) simp
    next
      case (Inr r)
      obtain s' gid where "r = (s', gid)" by (cases r)
      with Inr c PlayGame show ?thesis by (intro Played [of t em ip gid]) simp_all
    qed
  next
    case (RequestResolve g)
    show ?thesis
    proof (cases "requestResolve e t s g")
      case (Inl a) with c RequestResolve show ?thesis by (intro Unchanged) simp
    next
      case (Inr s') with c RequestResolve show ?thesis by (intro Requested [of t g]) simp_all
    qed
  next
    case (ResolveGame g ct pr)
    show ?thesis
    proof (cases "resolveGame e s g ct pr")
      case (Inl a) with c ResolveGame show ?thesis by (intro Unchanged) simp
    next
      case (Inr s') with c ResolveGame show ?thesis by (intro Resolved [of t g ct pr]) simp_all
    qed
  next
    case CancelGame
    show ?thesis
    proof (cases "cancelGame t s")
      case (Inl a) with c CancelGame show ?thesis by (intro Unchanged) simp
    next
      case (Inr s') with c CancelGame show ?thesis by (intro Cancelled [of t]) simp_all
    qed
  qed
qed

lemma created_id_exec:
  "(created_id e s c = [] \<and> gameIdCounter (exec e s c) = gameIdCounter s) \<or>
   (created_id e s c = [gameIdCounter s] \<and> gameIdCounter s \<noteq> - 1 \<and>
    gameIdCounter (exec e s c) = gameIdCounter s + 1)"
proof -
  obtain t k where c: "c = (t, k)" by (cases c)
  show ?thesis
  proof (cases k)
    case (PlayGame em ip)
    show ?thesis
    proof (cases "playGame e t s em ip")
      case (Inl a) with c PlayGame show ?thesis by simp
    next
      case (Inr r)
      obtain s' gid where r: "r = (s', gid)" by (cases r)
      from playGame_Inr [OF Inr [unfolded r]] c PlayGame Inr r show ?thesis by auto
    qed
  next
    case (RequestResolve g)
    show ?thesis
    proof (cases "requestResolve e t s g")
      case (Inl a) with c RequestResolve show ?thesis by simp
    next
      case (Inr s')
      from requestResolve_Inr [OF Inr] have "gameIdCounter s' = gameIdCounter s" by auto
      with c RequestResolve Inr show ?thesis by simp
    qed
  next
    case (ResolveGame g ct pr)
    show ?thesis
    proof (cases "resolveGame e s g ct pr")
      case (Inl a) with c ResolveGame show ?thesis by simp
    next
      case (Inr s')
      from resolveGame_Inr [OF Inr] have "gameIdCounter s' = gameIdCounter s" by auto
      with c ResolveGame Inr show ?thesis by simp
    qed
  next
    case CancelGame
    show ?thesis
    proof (cases "cancelGame t s")
      case (Inl a) with c CancelGame show ?thesis by simp
    next
      case (Inr s')
      from cancelGame_Inr [OF Inr] have "gameIdCounter s' = gameIdCounter s" by auto
      with c CancelGame Inr show ?thesis by simp
    qed
  qed
qed

lemma created_ids_interval:
  "set (created_ids e s cs) = {g. gameIdCounter s \<le> g \<and> g < gameIdCounter (foldl (exec e) s cs)} \<and>
   sorted_wrt (<) (created_ids e s cs) \<and>
   gameIdCounter s \<le> gameIdCounter (foldl (exec e) s cs)"
proof (induction cs arbitrary: s)
  case Nil
  show ?case by auto
next
  case (Cons c cs)
  let ?s1 = "exec e s c"
  note IH = Cons.IH [of ?s1]
  from created_id_exec [of e s c] show ?case
  proof (elim disjE conjE)
    assume "created_id e s c = []" "gameIdCounter ?s1 = gameIdCounter s"
    with IH show ?thesis by simp
  next
    assume a: "created_id e s c = [gameIdCounter s]" "gameIdCounter s \<noteq> - 1"
      "gameIdCounter ?s1 = gameIdCounter s + 1"
    have lt: "gameIdCounter s < gameIdCounter s + 1"
      by (simp add: less_plus1 [OF a(2)])
    have le: "\<And>g. (gameIdCounter s + 1 \<le> g) = (gameIdCounter s < g)"
      by (auto simp: word_le_nat_alt word_less_nat_alt unat_plus1 [OF a(2)])
    from IH have 1: "set (created_ids e ?s1 cs) =
        {g. gameIdCounter s < g \<and> g < gameIdCounter (foldl (exec e) ?s1 cs)}"
      and 2: "sorted_wrt (<) (created_ids e ?s1 cs)"
      and 3: "gameIdCounter s < gameIdCounter (foldl (exec e) ?s1 cs)"
      by (simp_all add: a(3) le)
    let ?C = "gameIdCounter s" and ?N = "gameIdCounter (foldl (exec e) ?s1 cs)"
    have "insert ?C {g. ?C < g \<and> g < ?N} = {g. ?C \<le> g \<and> g < ?N}"
      using 3 by auto
    then have "set (created_ids e s (c # cs)) =
        {g. gameIdCounter s \<le> g \<and> g < gameIdCounter (foldl (exec e) s (c # cs))}"
      by (simp add: a(1) 1)
    moreover have "sorted_wrt (<) (created_ids e s (c # cs))"
      by (simp add: a(1) 1 2)
    moreover have "gameIdCounter s \<le> gameIdCounter (foldl (exec e) s (c # cs))"
      using 3 by simp
    ultimately show ?thesis by blast
  qed
qed

lemma created_ids_issued:
  "set (created_ids e constructor cs) = {g. issued (run e constructor cs) g}"
proof -
  have "(0 < g) = (1 \<le> g)" for g :: uint256
    by (auto simp: word_le_nat_alt word_less_nat_alt)
  then show ?thesis
    using created_ids_interval [of e constructor cs]
    by (simp add: issued_def run_def constructor_def)
qed

subsection \<open>Consequences of the invariants\<close>

lemma ledger_inv_active:
  assumes "ledger_inv s" "p \<noteq> 0" "playerActiveGame s p \<noteq> 0"
  shows "issued s (playerActiveGame s p) \<and> player (games s (playerActiveGame s p)) = p \<and>
         \<not> isResolved (games s (playerActiveGame s p))"
  using assms unfolding ledger_inv_def issued_def
  by (metis word_neq_0_conv)

lemma ledger_inv_owner:
  assumes "ledger_inv s" "playerActiveGame s a \<noteq> 0"
  shows "player (games s (playerActiveGame s a)) = a"
  using assms unfolding ledger_inv_def by metis

lemma ledger_inv_unresolved:
  assumes "ledger_inv s" "p \<noteq> 0" "issued s g" "player (games s g) = p" "\<not> isResolved (games s g)"
  shows "playerActiveGame s p = g"
  using assms unfolding ledger_inv_def by metis

lemma ledger_inv_game0:
  assumes "ledger_inv s" "g < gameIdCounter s" "player (games s g) \<noteq> 0"
  shows "issued s g"
  using assms unfolding ledger_inv_def issued_def by (metis word_neq_0_conv)

lemma index_step:
  assumes inv: "ledger_inv s" and p: "p \<noteq> 0" and h: "playerActiveGame s p \<noteq> 0"
  shows "playerActiveGame (exec e s c) p =
     (if isResolved (games (exec e s c) (playerActiveGame s p)) then 0 else playerActiveGame s p)"
proof -
  let ?h = "playerActiveGame s p" and ?s1 = "exec e s c"
  from ledger_inv_active [OF inv p h] have
    iss: "issued s ?h" and own: "player (games s ?h) = p" and unres: "\<not> isResolved (games s ?h)"
    by auto
  from iss have lt: "?h < gameIdCounter s" by (simp add: issued_def)
  show ?thesis
  proof (cases rule: exec_cases [of e s c])
    case Unchanged
    with unres show ?thesis by simp
  next
    case (Played t em ip gid)
    from playGame_Inr [OF Played(2)] obtain x where
      act: "playerActiveGame s (msg_sender t) = 0" and
      s1: "?s1 = s\<lparr>gameIdCounter := gameIdCounter s + 1,
             games := (games s)(gameIdCounter s := \<lparr>player = msg_sender t,
               encryptedPlayerMove = x,
               opponentMove = generateRandomMove e t s, createdAt = block_timestamp t,
               isResolved = False, result = 0, revealedPlayerMove = 0,
               resolveRequested = False\<rparr>),
             playerActiveGame := (playerActiveGame s)(msg_sender t := gameIdCounter s)\<rparr>"
      by blast
    from act h have "msg_sender t \<noteq> p" by auto
    moreover from lt have "?h \<noteq> gameIdCounter s" by auto
    ultimately have "playerActiveGame ?s1 p = ?h" "games ?s1 ?h = games s ?h"
      by (simp_all add: s1)
    with unres show ?thesis by simp
  next
    case (Requested t gid)
    from requestResolve_Inr [OF Requested(2)]
    have "playerActiveGame ?s1 p = ?h" "isResolved (games ?s1 ?h) = isResolved (games s ?h)"
      by auto
    with unres show ?thesis by simp
  next
    case (Resolved t gid ct pr)
    let ?q = "player (games s gid)"
    from resolveGame_Inr [OF Resolved(2)] obtain m st where
      glt: "gid < gameIdCounter s" and gun: "\<not> isResolved (games s gid)" and
      s1: "?s1 = s\<lparr>games := (games s)(gid := (games s gid)\<lparr>revealedPlayerMove := m,
               result := determineWinner m (opponentMove (games s gid)), isResolved := True\<rparr>),
             playerStats := (playerStats s)(?q := st),
             playerActiveGame := (playerActiveGame s)(?q := 0)\<rparr>"
      by blast
    show ?thesis
    proof (cases "gid = ?h")
      case True
      with own show ?thesis by (simp add: s1)
    next
      case False
      have "?q \<noteq> p"
      proof
        assume q: "?q = p"
        with p have "issued s gid" using ledger_inv_game0 [OF inv glt] by simp
        from ledger_inv_unresolved [OF inv p this q gun] False show False by simp
      qed
      with False have "playerActiveGame ?s1 p = ?h" "games ?s1 ?h = games s ?h"
        by (simp_all add: s1)
      with unres show ?thesis by simp
    qed
  next
    case (Cancelled t)
    let ?a = "msg_sender t"
    let ?k = "playerActiveGame s ?a"
    from cancelGame_Inr [OF Cancelled(2)] have
      k: "?k \<noteq> 0" and
      s1: "?s1 = s\<lparr>games := (games s)(?k := (games s ?k)\<lparr>isResolved := True, result := DRAW\<rparr>),
                 playerActiveGame := (playerActiveGame s)(?a := 0)\<rparr>"
      by auto
    show ?thesis
    proof (cases "?a = p")
      case True
      then show ?thesis by (simp add: s1)
    next
      case False
      from ledger_inv_owner [OF inv k] False own have "?k \<noteq> ?h" by auto
      with False have "playerActiveGame ?s1 p = ?h" "games ?s1 ?h = games s ?h"
        by (simp_all add: s1)
      with unres show ?thesis by simp
    qed
  qed
qed

lemmas stub_runs = game_created_def resolve_requested_def stub_defs

lemma determineWinner_range: "determineWinner p q \<in> {DRAW, WIN, LOSS}"
  by (simp add: determineWinner_cases)

lemma result_consts: "WIN \<noteq> LOSS" "WIN \<noteq> DRAW" "LOSS \<noteq> DRAW"
  by (simp_all add: WIN_def LOSS_def DRAW_def)

lemma run_append: "run e s (cs @ cs') = run e (run e s cs) cs'"
  by (simp add: run_def)

lemma frame_resolved:
  assumes "frame s s'" "g < gameIdCounter s" "isResolved (games s g)"
  shows "g < gameIdCounter s' \<and> isResolved (games s' g)"
  using assms unfolding frame_def word_less_nat_alt by (metis less_le_trans)

lemma frame_lt:
  assumes "frame s s'" "g < gameIdCounter s"
  shows "g < gameIdCounter s'"
  using assms unfolding frame_def word_less_nat_alt by (metis less_le_trans)

lemma getGame_fails_iff:
  "getGame s g = Inl (Revert ''Game does not exist'') \<longleftrightarrow> \<not> g < gameIdCounter s"
  by (simp add: getGame_def Let_def)

lemma getGame_issued:
  "g \<noteq> 0 \<Longrightarrow> isl (getGame (run e constructor cs) g) \<longleftrightarrow> g \<notin> set (created_ids e constructor cs)"
  by (simp add: created_ids_issued issued_def getGame_def Let_def word_neq_0_conv)

section \<open>The protocol properties\<close>

text \<open>
  C1. In every state that a sequence of transactions reaches from deployment, a player
  (any address but the zero address, which sends no transaction) has at most one issued
  game that is not resolved, and \<open>playerActiveGame\<close> names it: the entry is nonzero
  exactly when such a game exists. \<open>playGame\<close> by the player needs the entry to be 0 and
  sets it to the new id, the value of the counter. A transaction clears a nonzero entry
  exactly when it resolves the game the entry names, and leaves it as it is otherwise;
  a successful \<open>resolveGame\<close> on that game and a successful \<open>cancelGame\<close> by the
  player both resolve it and clear the entry.
\<close>

theorem one_active_game_per_player:
  assumes "p \<noteq> 0"
  shows "let s = run e constructor cs; h = playerActiveGame s p in
     (\<forall>g. issued s g \<and> player (games s g) = p \<and> \<not> isResolved (games s g) \<longrightarrow> h = g) \<and>
     (\<forall>g g'. issued s g \<and> player (games s g) = p \<and> \<not> isResolved (games s g) \<and>
        issued s g' \<and> player (games s g') = p \<and> \<not> isResolved (games s g') \<longrightarrow> g = g') \<and>
     (h \<noteq> 0 \<longrightarrow> issued s h \<and> player (games s h) = p \<and> \<not> isResolved (games s h)) \<and>
     (\<forall>t em ip s' gid. msg_sender t = p \<and> playGame e t s em ip = Inr (s', gid) \<longrightarrow>
        h = 0 \<and> gid = gameIdCounter s \<and> playerActiveGame s' p = gid) \<and>
     (\<forall>c. h \<noteq> 0 \<longrightarrow> playerActiveGame (exec e s c) p =
        (if isResolved (games (exec e s c) h) then 0 else h)) \<and>
     (\<forall>ct pr s'. h \<noteq> 0 \<and> resolveGame e s h ct pr = Inr s' \<longrightarrow>
        isResolved (games s' h) \<and> playerActiveGame s' p = 0) \<and>
     (\<forall>t s'. msg_sender t = p \<and> cancelGame t s = Inr s' \<longrightarrow>
        h \<noteq> 0 \<and> isResolved (games s' h) \<and> playerActiveGame s' p = 0)"
proof -
  let ?s = "run e constructor cs"
  let ?h = "playerActiveGame ?s p"
  have inv: "ledger_inv ?s" by (rule ledger_inv_run)
  have A: "\<forall>g. issued ?s g \<and> player (games ?s g) = p \<and> \<not> isResolved (games ?s g) \<longrightarrow> ?h = g"
    using ledger_inv_unresolved [OF inv assms] by blast
  then have B: "\<forall>g g'. issued ?s g \<and> player (games ?s g) = p \<and> \<not> isResolved (games ?s g) \<and>
        issued ?s g' \<and> player (games ?s g') = p \<and> \<not> isResolved (games ?s g') \<longrightarrow> g = g'"
    by metis
  have C: "?h \<noteq> 0 \<longrightarrow> issued ?s ?h \<and> player (games ?s ?h) = p \<and> \<not> isResolved (games ?s ?h)"
    using ledger_inv_active [OF inv assms] by blast
  have D: "\<forall>t em ip s' gid. msg_sender t = p \<and> playGame e t ?s em ip = Inr (s', gid) \<longrightarrow>
        ?h = 0 \<and> gid = gameIdCounter ?s \<and> playerActiveGame s' p = gid"
  proof (intro allI impI, elim conjE)
    fix t em ip s' gid
    assume "msg_sender t = p" "playGame e t ?s em ip = Inr (s', gid)"
    with playGame_Inr [of e t ?s em ip s' gid]
    show "?h = 0 \<and> gid = gameIdCounter ?s \<and> playerActiveGame s' p = gid" by auto
  qed
  have E: "\<forall>c. ?h \<noteq> 0 \<longrightarrow> playerActiveGame (exec e ?s c) p =
        (if isResolved (games (exec e ?s c) ?h) then 0 else ?h)"
    using index_step [OF inv assms] by blast
  have F: "\<forall>ct pr s'. ?h \<noteq> 0 \<and> resolveGame e ?s ?h ct pr = Inr s' \<longrightarrow>
        isResolved (games s' ?h) \<and> playerActiveGame s' p = 0"
  proof (intro allI impI, elim conjE)
    fix ct pr s'
    assume h: "?h \<noteq> 0" and r: "resolveGame e ?s ?h ct pr = Inr s'"
    from ledger_inv_owner [OF inv h] resolveGame_Inr [OF r]
    show "isResolved (games s' ?h) \<and> playerActiveGame s' p = 0" by auto
  qed
  have G: "\<forall>t s'. msg_sender t = p \<and> cancelGame t ?s = Inr s' \<longrightarrow>
        ?h \<noteq> 0 \<and> isResolved (games s' ?h) \<and> playerActiveGame s' p = 0"
  proof (intro allI impI, elim conjE)
    fix t s'
    assume "msg_sender t = p" "cancelGame t ?s = Inr s'"
    with cancelGame_Inr [of t ?s s']
    show "?h \<noteq> 0 \<and> isResolved (games s' ?h) \<and> playerActiveGame s' p = 0" by auto
  qed
  show ?thesis unfolding Let_def using A B C D E F G by blast
qed

theorem one_active_game_per_player_witness:
  "msg_sender alice \<noteq> 0 \<and>
   playerActiveGame (run stub_env constructor resolve_requested) (msg_sender alice) = 1 \<and>
   issued (run stub_env constructor resolve_requested) 1 \<and>
   player (games (run stub_env constructor resolve_requested) 1) = msg_sender alice \<and>
   \<not> isResolved (games (run stub_env constructor resolve_requested) 1) \<and>
   playerActiveGame (exec stub_env (run stub_env constructor resolve_requested) (alice, CancelGame))
     (msg_sender alice) = 0"
proof -
  let ?s = "run stub_env constructor resolve_requested"
  have nz: "msg_sender alice \<noteq> 0" by (simp add: alice_def)
  have act: "playerActiveGame ?s (msg_sender alice) = 1" by (simp add: stub_runs)
  have res: "isResolved (games (exec stub_env ?s (alice, CancelGame)) 1)"
    by (simp add: stub_runs)
  note T = one_active_game_per_player [OF nz, of stub_env resolve_requested, unfolded Let_def act]
  from T have "(1 :: uint256) \<noteq> 0 \<longrightarrow> issued ?s 1 \<and> player (games ?s 1) = msg_sender alice \<and>
      \<not> isResolved (games ?s 1)"
    by (elim conjE)
  then have C: "issued ?s 1 \<and> player (games ?s 1) = msg_sender alice \<and> \<not> isResolved (games ?s 1)"
    by simp
  from T have "\<forall>c. (1 :: uint256) \<noteq> 0 \<longrightarrow> playerActiveGame (exec stub_env ?s c) (msg_sender alice) =
      (if isResolved (games (exec stub_env ?s c) 1) then 0 else 1)"
    by (elim conjE)
  then have "(1 :: uint256) \<noteq> 0 \<longrightarrow>
      playerActiveGame (exec stub_env ?s (alice, CancelGame)) (msg_sender alice) =
      (if isResolved (games (exec stub_env ?s (alice, CancelGame)) 1) then 0 else 1)"
    by (rule spec)
  moreover have "(1 :: uint256) \<noteq> 0" by simp
  ultimately have "playerActiveGame (exec stub_env ?s (alice, CancelGame)) (msg_sender alice) =
      (if isResolved (games (exec stub_env ?s (alice, CancelGame)) 1) then 0 else 1)"
    by (rule mp)
  with res have E: "playerActiveGame (exec stub_env ?s (alice, CancelGame)) (msg_sender alice) = 0"
    by simp
  from nz act C E show ?thesis by blast
qed

text \<open>
  C2. On the nine pairs of moves in \<open>{1, 2, 3}\<close>, \<open>determineWinner\<close> is the fixed
  table: equal moves are a draw; (1,3), (2,1) and (3,2) are a win; (3,1), (1,2) and (2,3)
  are a loss. With Rock = 1, Paper = 2 and Scissors = 3: Rock beats Scissors, Paper beats
  Rock, Scissors beats Paper, seen from the player.
\<close>

theorem determineWinner_table:
  "ROCK = 1 \<and> PAPER = 2 \<and> SCISSORS = 3 \<and> DRAW = 0 \<and> WIN = 1 \<and> LOSS = 2 \<and>
   determineWinner 1 1 = DRAW \<and> determineWinner 2 2 = DRAW \<and> determineWinner 3 3 = DRAW \<and>
   determineWinner 1 3 = WIN \<and> determineWinner 2 1 = WIN \<and> determineWinner 3 2 = WIN \<and>
   determineWinner 3 1 = LOSS \<and> determineWinner 1 2 = LOSS \<and> determineWinner 2 3 = LOSS \<and>
   determineWinner ROCK SCISSORS = WIN \<and> determineWinner PAPER ROCK = WIN \<and>
   determineWinner SCISSORS PAPER = WIN"
  by (simp add: determineWinner_cases ROCK_def PAPER_def SCISSORS_def DRAW_def WIN_def LOSS_def)

text \<open>
  C3, as stated, fails in its last part: an accepted proof is not enough for the later
  \<open>resolveGame\<close> to succeed. \<open>playGame\<close> cannot check the range of the encrypted
  move, and \<open>resolveGame\<close> checks the decoded move after \<open>checkSignatures\<close>. In the
  run below the game is waiting for its resolution, a first call with a rejected proof
  reverts and changes nothing, and the later call, whose proof is accepted for the
  cleartext 4, reverts with "Invalid player move" and leaves the game unresolved.
\<close>

theorem resolveGame_valid_proof_invalid_move:
  "resolveRequested (games (run stub_env constructor resolve_requested) 1) \<and>
   \<not> isResolved (games (run stub_env constructor resolve_requested) 1) \<and>
   resolveGame stub_env (run stub_env constructor resolve_requested) 1 (abi_encode_uint8 4) [0] =
     Inl ProofVerificationFailed \<and>
   checkSignatures stub_env
     [encryptedPlayerMove (games (exec stub_env (run stub_env constructor resolve_requested)
        (alice, ResolveGame 1 (abi_encode_uint8 4) [0])) 1)]
     (abi_encode_uint8 4) [1] \<and>
   resolveGame stub_env
     (exec stub_env (run stub_env constructor resolve_requested)
        (alice, ResolveGame 1 (abi_encode_uint8 4) [0]))
     1 (abi_encode_uint8 4) [1] = Inl (Revert ''Invalid player move'') \<and>
   \<not> isResolved (games
     (exec stub_env
        (exec stub_env (run stub_env constructor resolve_requested)
           (alice, ResolveGame 1 (abi_encode_uint8 4) [0]))
        (alice, ResolveGame 1 (abi_encode_uint8 4) [1])) 1)"
proof -
  let ?s = "run stub_env constructor resolve_requested"
  have a: "resolveRequested (games ?s 1)" "\<not> isResolved (games ?s 1)"
    by (simp_all add: stub_runs)
  have b: "resolveGame stub_env ?s 1 (abi_encode_uint8 4) [0] = Inl ProofVerificationFailed"
    by (simp add: stub_runs)
  then have same: "exec stub_env ?s (alice, ResolveGame 1 (abi_encode_uint8 4) [0]) = ?s"
    by simp
  have c: "checkSignatures stub_env [encryptedPlayerMove (games ?s 1)] (abi_encode_uint8 4) [1]"
    by (simp add: stub_env_def)
  have d: "resolveGame stub_env ?s 1 (abi_encode_uint8 4) [1] = Inl (Revert ''Invalid player move'')"
    by (simp add: stub_runs)
  then have "exec stub_env ?s (alice, ResolveGame 1 (abi_encode_uint8 4) [1]) = ?s"
    by simp
  with a(2) have e: "\<not> isResolved (games
      (exec stub_env ?s (alice, ResolveGame 1 (abi_encode_uint8 4) [1])) 1)"
    by simp
  from a b c d e show ?thesis unfolding same by blast
qed

text \<open>
  C3, amended. In a state reached from deployment, take a game for which resolve has been
  requested and that is not resolved. A \<open>resolveGame\<close> whose proof \<open>checkSignatures\<close>
  rejects reverts, so the storage is as before: the game is still unresolved with resolve
  requested, its result and revealed move are still 0, and no statistics moved. A later
  \<open>resolveGame\<close> on the same game succeeds whenever the proof is accepted and the
  cleartext decodes to a move in \<open>{1, 2, 3}\<close>: no counter can overflow there.
\<close>

theorem resolveGame_failed_proof_retryable:
  assumes "s = run e constructor cs"
    and "gid < gameIdCounter s" and "\<not> isResolved (games s gid)"
    and "resolveRequested (games s gid)"
    and "\<not> checkSignatures e [encryptedPlayerMove (games s gid)] ct pr"
  shows "resolveGame e s gid ct pr = Inl ProofVerificationFailed \<and>
     exec e s (t, ResolveGame gid ct pr) = s \<and>
     result (games s gid) = 0 \<and> revealedPlayerMove (games s gid) = 0 \<and>
     (\<forall>ct' pr' m. checkSignatures e [encryptedPlayerMove (games s gid)] ct' pr' \<and>
        abi_decode_uint8 ct' = Some m \<and> ROCK \<le> m \<and> m \<le> SCISSORS \<longrightarrow>
        (\<exists>s'. resolveGame e (exec e s (t, ResolveGame gid ct pr)) gid ct' pr' = Inr s' \<and>
           isResolved (games s' gid) \<and> revealedPlayerMove (games s' gid) = m \<and>
           result (games s' gid) = determineWinner m (opponentMove (games s gid)) \<and>
           unat (totalGames (playerStats s' (player (games s gid)))) =
             unat (totalGames (playerStats s (player (games s gid)))) + 1))"
proof -
  have fail: "resolveGame e s gid ct pr = Inl ProofVerificationFailed"
    using assms(2-5) by (simp add: resolveGame_def Let_def)
  then have same: "exec e s (t, ResolveGame gid ct pr) = s" by simp
  have unset: "result (games s gid) = 0" "revealedPlayerMove (games s gid) = 0"
    using record_inv_run [of e cs] assms(1,3) by (simp_all add: record_inv_def)
  have sinv: "stats_inv s" unfolding assms(1) by (rule stats_inv_run)
  have retry: "\<exists>s'. resolveGame e s gid ct' pr' = Inr s' \<and>
           isResolved (games s' gid) \<and> revealedPlayerMove (games s' gid) = m \<and>
           result (games s' gid) = determineWinner m (opponentMove (games s gid)) \<and>
           unat (totalGames (playerStats s' (player (games s gid)))) =
             unat (totalGames (playerStats s (player (games s gid)))) + 1"
    if ok: "checkSignatures e [encryptedPlayerMove (games s gid)] ct' pr'"
      "abi_decode_uint8 ct' = Some m" "ROCK \<le> m" "m \<le> SCISSORS" for ct' pr' m
  proof -
    let ?p = "player (games s gid)"
    let ?r = "determineWinner m (opponentMove (games s gid))"
    have "unat (wins (playerStats s ?p)) + unat (losses (playerStats s ?p)) +
            unat (draws (playerStats s ?p)) = unat (totalGames (playerStats s ?p))"
      using sinv by (simp add: stats_inv_def)
    from updateStats_succeeds [OF this stats_no_overflow [OF sinv assms(2,3)], of ?r]
    obtain st where st: "updateStats (playerStats s ?p) ?r = Some st" by blast
    have "resolveGame e s gid ct' pr' =
        Inr (s\<lparr>games := (games s)(gid := (games s gid)\<lparr>revealedPlayerMove := m,
               result := ?r, isResolved := True\<rparr>),
             playerStats := (playerStats s)(?p := st),
             playerActiveGame := (playerActiveGame s)(?p := 0)\<rparr>)"
      using assms(2-4) ok st by (simp add: resolveGame_def Let_def)
    moreover have "unat (totalGames st) = unat (totalGames (playerStats s ?p)) + 1"
      using updateStats_Some [OF st] by simp
    ultimately show ?thesis by simp
  qed
  show ?thesis
    unfolding same
  proof (intro conjI allI impI)
    show "resolveGame e s gid ct pr = Inl ProofVerificationFailed" by (rule fail)
    show "s = s" by (rule refl)
    show "result (games s gid) = 0" by (rule unset)
    show "revealedPlayerMove (games s gid) = 0" by (rule unset)
  next
    fix ct' pr' m
    assume "checkSignatures e [encryptedPlayerMove (games s gid)] ct' pr' \<and>
        abi_decode_uint8 ct' = Some m \<and> ROCK \<le> m \<and> m \<le> SCISSORS"
    then show "\<exists>s'. resolveGame e s gid ct' pr' = Inr s' \<and>
           isResolved (games s' gid) \<and> revealedPlayerMove (games s' gid) = m \<and>
           result (games s' gid) = determineWinner m (opponentMove (games s gid)) \<and>
           unat (totalGames (playerStats s' (player (games s gid)))) =
             unat (totalGames (playerStats s (player (games s gid)))) + 1"
      using retry by blast
  qed
qed

theorem resolveGame_failed_proof_retryable_witness:
  "(1 :: uint256) < gameIdCounter (run stub_env constructor resolve_requested) \<and>
   \<not> isResolved (games (run stub_env constructor resolve_requested) 1) \<and>
   resolveRequested (games (run stub_env constructor resolve_requested) 1) \<and>
   \<not> checkSignatures stub_env
       [encryptedPlayerMove (games (run stub_env constructor resolve_requested) 1)]
       (abi_encode_uint8 1) [0] \<and>
   resolveGame stub_env (run stub_env constructor resolve_requested) 1 (abi_encode_uint8 1) [0] =
     Inl ProofVerificationFailed \<and>
   exec stub_env (run stub_env constructor resolve_requested)
     (alice, ResolveGame 1 (abi_encode_uint8 1) [0]) =
     run stub_env constructor resolve_requested \<and>
   isResolved (games (exec stub_env (exec stub_env (run stub_env constructor resolve_requested)
     (alice, ResolveGame 1 (abi_encode_uint8 1) [0]))
     (alice, ResolveGame 1 (abi_encode_uint8 1) [1])) 1)"
proof -
  let ?s = "run stub_env constructor resolve_requested"
  have h: "(1 :: uint256) < gameIdCounter ?s" "\<not> isResolved (games ?s 1)"
      "resolveRequested (games ?s 1)"
      "\<not> checkSignatures stub_env [encryptedPlayerMove (games ?s 1)] (abi_encode_uint8 1) [0]"
    by (simp_all add: stub_runs)
  note T = resolveGame_failed_proof_retryable [OF refl h, of alice]
  from T have a: "resolveGame stub_env ?s 1 (abi_encode_uint8 1) [0] = Inl ProofVerificationFailed"
    by (elim conjE)
  from T have b: "exec stub_env ?s (alice, ResolveGame 1 (abi_encode_uint8 1) [0]) = ?s"
    by (elim conjE)
  have c: "isResolved (games (exec stub_env (exec stub_env ?s
     (alice, ResolveGame 1 (abi_encode_uint8 1) [0]))
     (alice, ResolveGame 1 (abi_encode_uint8 1) [1])) 1)"
    unfolding b by (simp add: stub_runs)
  from h a b c show ?thesis by blast
qed

text \<open>
  C4, as stated, fails: \<open>cancelGame\<close> does not read \<open>resolveRequested\<close>. After
  \<open>playGame\<close> and \<open>requestResolve\<close> the player's game has the flag set, and
  \<open>cancelGame\<close> by the player succeeds and resolves it.
\<close>

theorem cancelGame_after_requestResolve_succeeds:
  "resolveRequested (games (run stub_env constructor resolve_requested) 1) \<and>
   \<not> isResolved (games (run stub_env constructor resolve_requested) 1) \<and>
   playerActiveGame (run stub_env constructor resolve_requested) (msg_sender alice) = 1 \<and>
   \<not> isl (cancelGame alice (run stub_env constructor resolve_requested)) \<and>
   isResolved (games (exec stub_env (run stub_env constructor resolve_requested)
     (alice, CancelGame)) 1) \<and>
   exec stub_env (run stub_env constructor resolve_requested) (alice, CancelGame) \<noteq>
     run stub_env constructor resolve_requested"
proof -
  let ?s = "run stub_env constructor resolve_requested"
  have a: "resolveRequested (games ?s 1)" "\<not> isResolved (games ?s 1)"
    "playerActiveGame ?s (msg_sender alice) = 1" "\<not> isl (cancelGame alice ?s)"
    "isResolved (games (exec stub_env ?s (alice, CancelGame)) 1)"
    by (simp_all add: stub_runs)
  from a(2,5) have "exec stub_env ?s (alice, CancelGame) \<noteq> ?s" by metis
  with a show ?thesis by blast
qed

text \<open>
  C4, amended. In every state reached from deployment, \<open>cancelGame\<close> by a caller
  (not the zero address) succeeds exactly when the caller has an active game, whether or
  not resolve has been requested for it: it resolves the game as a draw, leaves
  \<open>resolveRequested\<close> as it was, and clears the caller's entry. With no active game it
  reverts with "No active game to cancel".
\<close>

theorem cancelGame_succeeds_on_active_game:
  assumes "msg_sender t \<noteq> 0"
  shows "let s = run e constructor cs; h = playerActiveGame s (msg_sender t) in
     (h = 0 \<longrightarrow> cancelGame t s = Inl (Revert ''No active game to cancel'')) \<and>
     (h \<noteq> 0 \<longrightarrow> (\<exists>s'. cancelGame t s = Inr s' \<and>
        isResolved (games s' h) \<and> result (games s' h) = DRAW \<and>
        resolveRequested (games s' h) = resolveRequested (games s h) \<and>
        playerActiveGame s' (msg_sender t) = 0))"
proof -
  let ?s = "run e constructor cs"
  let ?h = "playerActiveGame ?s (msg_sender t)"
  have a: "cancelGame t ?s = Inl (Revert ''No active game to cancel'')" if "?h = 0"
    using that by (simp add: cancelGame_def Let_def)
  have b: "\<exists>s'. cancelGame t ?s = Inr s' \<and>
        isResolved (games s' ?h) \<and> result (games s' ?h) = DRAW \<and>
        resolveRequested (games s' ?h) = resolveRequested (games ?s ?h) \<and>
        playerActiveGame s' (msg_sender t) = 0" if h: "?h \<noteq> 0"
  proof -
    from ledger_inv_active [OF ledger_inv_run assms h]
    have "\<not> isResolved (games ?s ?h)" by simp
    with h show ?thesis by (simp add: cancelGame_def Let_def)
  qed
  from a b show ?thesis unfolding Let_def by blast
qed

theorem cancelGame_succeeds_on_active_game_witness:
  "msg_sender alice \<noteq> 0 \<and>
   playerActiveGame (run stub_env constructor resolve_requested) (msg_sender alice) \<noteq> 0 \<and>
   resolveRequested (games (run stub_env constructor resolve_requested) 1) \<and>
   (\<exists>s'. cancelGame alice (run stub_env constructor resolve_requested) = Inr s' \<and>
      isResolved (games s' 1) \<and> result (games s' 1) = DRAW \<and>
      resolveRequested (games s' 1) \<and> playerActiveGame s' (msg_sender alice) = 0) \<and>
   playerActiveGame constructor (msg_sender alice) = 0 \<and>
   cancelGame alice (run stub_env constructor []) = Inl (Revert ''No active game to cancel'')"
proof -
  let ?s = "run stub_env constructor resolve_requested"
  have nz: "msg_sender alice \<noteq> 0" by (simp add: alice_def)
  have act: "playerActiveGame ?s (msg_sender alice) = 1" by (simp add: stub_runs)
  have rr: "resolveRequested (games ?s 1)" by (simp add: stub_runs)
  have one: "(1 :: uint256) \<noteq> 0" by simp
  note T = cancelGame_succeeds_on_active_game [OF nz, of stub_env resolve_requested,
    unfolded Let_def act]
  from T have "(1 :: uint256) \<noteq> 0 \<longrightarrow> (\<exists>s'. cancelGame alice ?s = Inr s' \<and>
        isResolved (games s' 1) \<and> result (games s' 1) = DRAW \<and>
        resolveRequested (games s' 1) = resolveRequested (games ?s 1) \<and>
        playerActiveGame s' (msg_sender alice) = 0)"
    by (elim conjE)
  from this one have "\<exists>s'. cancelGame alice ?s = Inr s' \<and>
        isResolved (games s' 1) \<and> result (games s' 1) = DRAW \<and>
        resolveRequested (games s' 1) = resolveRequested (games ?s 1) \<and>
        playerActiveGame s' (msg_sender alice) = 0"
    by (rule mp)
  with rr have b: "\<exists>s'. cancelGame alice ?s = Inr s' \<and>
      isResolved (games s' 1) \<and> result (games s' 1) = DRAW \<and>
      resolveRequested (games s' 1) \<and> playerActiveGame s' (msg_sender alice) = 0"
    by metis
  have z: "playerActiveGame (run stub_env constructor []) (msg_sender alice) = 0"
    by (simp add: stub_runs)
  note T0 = cancelGame_succeeds_on_active_game [OF nz, of stub_env "[]", unfolded Let_def z]
  from T0 have "(0 :: uint256) = 0 \<longrightarrow>
      cancelGame alice (run stub_env constructor []) = Inl (Revert ''No active game to cancel'')"
    by (elim conjE)
  then have c: "cancelGame alice (run stub_env constructor []) =
      Inl (Revert ''No active game to cancel'')"
    by simp
  have z': "playerActiveGame constructor (msg_sender alice) = 0" by (simp add: stub_runs)
  from nz act rr b z' c one show ?thesis by simp
qed

text \<open>
  C5. \<open>getGame\<close> rejects an id only when it is not below the counter. The counter
  starts at 1 and never decreases, so id 0, which no \<open>playGame\<close> ever returns, passes
  the check in every reachable state: on the fresh contract \<open>getGame 0\<close> returns the
  all-zero record instead of reverting with "Game does not exist".
\<close>

theorem getGame_zero_id_found:
  "getGame constructor 0 = Inr (0, 0, 0, False, 0, 0, False) \<and>
   0 \<notin> set (created_ids e constructor cs) \<and>
   \<not> isl (getGame (run e constructor cs) 0)"
proof -
  have a: "getGame constructor 0 = Inr (0, 0, 0, False, 0, 0, False)"
    by (simp add: getGame_def constructor_def zero_Game_def)
  have b: "0 \<notin> set (created_ids e constructor cs)"
    by (simp add: created_ids_issued issued_def)
  have "0 < gameIdCounter (run e constructor cs)"
    using ledger_inv_run [of e cs] by (simp add: ledger_inv_def)
  then have c: "\<not> isl (getGame (run e constructor cs) 0)"
    by (simp add: getGame_def Let_def)
  from a b c show ?thesis by blast
qed

text \<open>
  C6. Once \<open>resolveGame\<close> has succeeded on a game, every later \<open>resolveGame\<close> on
  it, after any transactions, reverts with "Game already resolved" and changes nothing.
  The successful call adds one to \<open>totalGames\<close> of the game's player and one to the
  counter of the result, and to no other counter of any player.
\<close>

theorem resolveGame_second_call_fails:
  assumes "resolveGame e s gid ct pr = Inr s1"
  shows "(\<forall>cs ct' pr'. resolveGame e (run e s1 cs) gid ct' pr' =
            Inl (Revert ''Game already resolved'')) \<and>
         (\<forall>t ct' pr'. exec e s1 (t, ResolveGame gid ct' pr') = s1) \<and>
         (let p = player (games s gid); r = result (games s1 gid);
              old = playerStats s p; new = playerStats s1 p
          in unat (totalGames new) = unat (totalGames old) + 1 \<and>
             unat (wins new) = unat (wins old) + (if r = WIN then 1 else 0) \<and>
             unat (losses new) = unat (losses old) + (if r = LOSS then 1 else 0) \<and>
             unat (draws new) = unat (draws old) + (if r = DRAW then 1 else 0) \<and>
             (\<forall>q. q \<noteq> p \<longrightarrow> playerStats s1 q = playerStats s q))"
proof -
  let ?p = "player (games s gid)"
  from resolveGame_Inr [OF assms] obtain m st where
    lt: "gid < gameIdCounter s" and
    us: "updateStats (playerStats s ?p) (determineWinner m (opponentMove (games s gid))) = Some st" and
    s1: "s1 = s\<lparr>games := (games s)(gid := (games s gid)\<lparr>revealedPlayerMove := m,
               result := determineWinner m (opponentMove (games s gid)), isResolved := True\<rparr>),
             playerStats := (playerStats s)(?p := st),
             playerActiveGame := (playerActiveGame s)(?p := 0)\<rparr>"
    by blast
  let ?r = "determineWinner m (opponentMove (games s gid))"
  have lt1: "gid < gameIdCounter s1" and res1: "isResolved (games s1 gid)"
    using lt by (simp_all add: s1)
  have again: "resolveGame e (run e s1 cs) gid ct' pr' = Inl (Revert ''Game already resolved'')"
    for cs ct' pr'
    using frame_resolved [OF frame_run lt1 res1, of e cs]
    by (simp add: resolveGame_def)
  have same: "exec e s1 (t, ResolveGame gid ct' pr') = s1" for t ct' pr'
    using again [of "[]" ct' pr'] by (simp add: run_def)
  have r: "result (games s1 gid) = ?r" by (simp add: s1)
  have new: "playerStats s1 ?p = st" by (simp add: s1)
  have other: "\<forall>q. q \<noteq> ?p \<longrightarrow> playerStats s1 q = playerStats s q" by (simp add: s1)
  have rng: "?r = WIN \<or> ?r = LOSS \<or> ?r = DRAW"
    using determineWinner_range [of m "opponentMove (games s gid)"] by auto
  from updateStats_Some [OF us] rng result_consts
  have st: "unat (totalGames st) = unat (totalGames (playerStats s ?p)) + 1"
        "unat (wins st) = unat (wins (playerStats s ?p)) + (if ?r = WIN then 1 else 0)"
        "unat (losses st) = unat (losses (playerStats s ?p)) + (if ?r = LOSS then 1 else 0)"
        "unat (draws st) = unat (draws (playerStats s ?p)) + (if ?r = DRAW then 1 else 0)"
    by auto
  show ?thesis
    unfolding Let_def r new
  proof (intro conjI allI)
    show "resolveGame e (run e s1 cs) gid ct' pr' = Inl (Revert ''Game already resolved'')"
      for cs ct' pr' by (rule again)
    show "exec e s1 (t, ResolveGame gid ct' pr') = s1" for t ct' pr' by (rule same)
    show "q \<noteq> ?p \<longrightarrow> playerStats s1 q = playerStats s q" for q by (simp add: s1)
  qed (rule st)+
qed

theorem resolveGame_second_call_fails_witness:
  "resolveGame stub_env (run stub_env constructor resolve_requested) 1 (abi_encode_uint8 1) [1] =
     Inr (exec stub_env (run stub_env constructor resolve_requested)
           (alice, ResolveGame 1 (abi_encode_uint8 1) [1])) \<and>
   resolveGame stub_env
     (run stub_env (exec stub_env (run stub_env constructor resolve_requested)
           (alice, ResolveGame 1 (abi_encode_uint8 1) [1])) [])
     1 (abi_encode_uint8 1) [1] = Inl (Revert ''Game already resolved'') \<and>
   unat (totalGames (playerStats (exec stub_env (run stub_env constructor resolve_requested)
           (alice, ResolveGame 1 (abi_encode_uint8 1) [1])) (msg_sender alice))) = 1"
proof -
  let ?s = "run stub_env constructor resolve_requested"
  let ?s1 = "exec stub_env ?s (alice, ResolveGame 1 (abi_encode_uint8 1) [1])"
  have r: "resolveGame stub_env ?s 1 (abi_encode_uint8 1) [1] = Inr ?s1"
    by (simp add: stub_runs)
  have pl: "player (games ?s 1) = msg_sender alice" by (simp add: stub_runs)
  have old: "unat (totalGames (playerStats ?s (msg_sender alice))) = 0" by (simp add: stub_runs)
  note T = resolveGame_second_call_fails [OF r, unfolded Let_def pl]
  from T have "\<forall>cs ct' pr'. resolveGame stub_env (run stub_env ?s1 cs) 1 ct' pr' =
      Inl (Revert ''Game already resolved'')"
    by (elim conjE)
  then have a: "resolveGame stub_env (run stub_env ?s1 []) 1 (abi_encode_uint8 1) [1] =
      Inl (Revert ''Game already resolved'')"
    by blast
  from T have "unat (totalGames (playerStats ?s1 (msg_sender alice))) =
      unat (totalGames (playerStats ?s (msg_sender alice))) + 1"
    by (elim conjE)
  with old have b: "unat (totalGames (playerStats ?s1 (msg_sender alice))) = 1" by simp
  from r a b show ?thesis by blast
qed

text \<open>
  C7. In a state reached from deployment, a successful \<open>cancelGame\<close> sets the result
  of the caller's active game to \<open>DRAW\<close>, marks it resolved, clears the caller's entry,
  leaves the revealed move at 0 and changes no statistics of any player. A
  \<open>resolveGame\<close> that ends in a draw, by contrast, adds one to \<open>totalGames\<close> and one
  to \<open>draws\<close> of the game's player.
\<close>

theorem cancelGame_effects:
  assumes "s = run e constructor cs" and "cancelGame t s = Inr s'"
  shows "let h = playerActiveGame s (msg_sender t) in
     h \<noteq> 0 \<and> result (games s' h) = DRAW \<and> isResolved (games s' h) \<and>
     playerActiveGame s' (msg_sender t) = 0 \<and>
     revealedPlayerMove (games s' h) = 0 \<and>
     playerStats s' = playerStats s \<and>
     (\<forall>p. getPlayerStats s' p = getPlayerStats s p) \<and>
     (\<forall>gid ct pr s2. resolveGame e s gid ct pr = Inr s2 \<and> result (games s2 gid) = DRAW \<longrightarrow>
        unat (totalGames (playerStats s2 (player (games s gid)))) =
          unat (totalGames (playerStats s (player (games s gid)))) + 1 \<and>
        unat (draws (playerStats s2 (player (games s gid)))) =
          unat (draws (playerStats s (player (games s gid)))) + 1 \<and>
        wins (playerStats s2 (player (games s gid))) = wins (playerStats s (player (games s gid))) \<and>
        losses (playerStats s2 (player (games s gid))) =
          losses (playerStats s (player (games s gid))))"
proof -
  let ?h = "playerActiveGame s (msg_sender t)"
  from cancelGame_Inr [OF assms(2)] have
    h: "?h \<noteq> 0" and unres: "\<not> isResolved (games s ?h)" and
    s': "s' = s\<lparr>games := (games s)(?h := (games s ?h)\<lparr>isResolved := True, result := DRAW\<rparr>),
                 playerActiveGame := (playerActiveGame s)(msg_sender t := 0)\<rparr>"
    by auto
  have "revealedPlayerMove (games s ?h) = 0"
    using record_inv_run [of e cs] unres assms(1) by (simp add: record_inv_def)
  then have rev: "revealedPlayerMove (games s' ?h) = 0" by (simp add: s')
  have st: "playerStats s' = playerStats s" by (simp add: s')
  have draw: "unat (totalGames (playerStats s2 (player (games s gid)))) =
          unat (totalGames (playerStats s (player (games s gid)))) + 1 \<and>
        unat (draws (playerStats s2 (player (games s gid)))) =
          unat (draws (playerStats s (player (games s gid)))) + 1 \<and>
        wins (playerStats s2 (player (games s gid))) = wins (playerStats s (player (games s gid))) \<and>
        losses (playerStats s2 (player (games s gid))) =
          losses (playerStats s (player (games s gid)))"
    if r: "resolveGame e s gid ct pr = Inr s2" and d: "result (games s2 gid) = DRAW"
    for gid ct pr s2
  proof -
    let ?p = "player (games s gid)"
    from resolveGame_Inr [OF r] obtain m st where
      us: "updateStats (playerStats s ?p) (determineWinner m (opponentMove (games s gid))) = Some st" and
      s2: "s2 = s\<lparr>games := (games s)(gid := (games s gid)\<lparr>revealedPlayerMove := m,
               result := determineWinner m (opponentMove (games s gid)), isResolved := True\<rparr>),
             playerStats := (playerStats s)(?p := st),
             playerActiveGame := (playerActiveGame s)(?p := 0)\<rparr>"
      by blast
    from d have dr: "determineWinner m (opponentMove (games s gid)) = DRAW" by (simp add: s2)
    have new: "playerStats s2 ?p = st" by (simp add: s2)
    from us [unfolded dr] have "wins st = wins (playerStats s ?p)" "losses st = losses (playerStats s ?p)"
      using result_consts
      by (auto simp: updateStats_def split: option.splits if_splits)
    with updateStats_Some [OF us [unfolded dr]] result_consts show ?thesis
      unfolding new by auto
  qed
  show ?thesis
    unfolding Let_def
  proof (intro conjI allI impI)
    show "?h \<noteq> 0" by (rule h)
    show "result (games s' ?h) = DRAW" by (simp add: s')
    show "isResolved (games s' ?h)" by (simp add: s')
    show "playerActiveGame s' (msg_sender t) = 0" by (simp add: s')
    show "revealedPlayerMove (games s' ?h) = 0" by (rule rev)
    show "playerStats s' = playerStats s" by (rule st)
    show "getPlayerStats s' p = getPlayerStats s p" for p by (simp add: getPlayerStats_def st)
  next
    fix gid ct pr s2
    assume a: "resolveGame e s gid ct pr = Inr s2 \<and> result (games s2 gid) = DRAW"
    then have r: "resolveGame e s gid ct pr = Inr s2" and d: "result (games s2 gid) = DRAW"
      by simp_all
    note D = draw [OF r d]
    from D show "unat (totalGames (playerStats s2 (player (games s gid)))) =
          unat (totalGames (playerStats s (player (games s gid)))) + 1" by (elim conjE)
    from D show "unat (draws (playerStats s2 (player (games s gid)))) =
          unat (draws (playerStats s (player (games s gid)))) + 1" by (elim conjE)
    from D show "wins (playerStats s2 (player (games s gid))) =
          wins (playerStats s (player (games s gid)))" by (elim conjE)
    from D show "losses (playerStats s2 (player (games s gid))) =
          losses (playerStats s (player (games s gid)))" by (elim conjE)
  qed
qed

theorem cancelGame_effects_witness:
  "cancelGame alice (run stub_env constructor game_created) =
     Inr (exec stub_env (run stub_env constructor game_created) (alice, CancelGame)) \<and>
   result (games (exec stub_env (run stub_env constructor game_created) (alice, CancelGame)) 1) = DRAW \<and>
   isResolved (games (exec stub_env (run stub_env constructor game_created) (alice, CancelGame)) 1) \<and>
   getPlayerStats (exec stub_env (run stub_env constructor game_created) (alice, CancelGame))
     (msg_sender alice) = (0, 0, 0, 0) \<and>
   resolveGame stub_env (run stub_env constructor resolve_requested) 1 (abi_encode_uint8 3) [1] =
     Inr (exec stub_env (run stub_env constructor resolve_requested)
       (alice, ResolveGame 1 (abi_encode_uint8 3) [1])) \<and>
   result (games (exec stub_env (run stub_env constructor resolve_requested)
       (alice, ResolveGame 1 (abi_encode_uint8 3) [1])) 1) = DRAW \<and>
   unat (draws (playerStats (exec stub_env (run stub_env constructor resolve_requested)
       (alice, ResolveGame 1 (abi_encode_uint8 3) [1])) (msg_sender alice))) = 1"
proof -
  let ?s = "run stub_env constructor game_created"
  let ?s' = "exec stub_env ?s (alice, CancelGame)"
  let ?u = "run stub_env constructor resolve_requested"
  let ?u' = "exec stub_env ?u (alice, ResolveGame 1 (abi_encode_uint8 3) [1])"
  have c: "cancelGame alice ?s = Inr ?s'" by (simp add: stub_runs)
  have act: "playerActiveGame ?s (msg_sender alice) = 1" by (simp add: stub_runs)
  have old: "getPlayerStats ?s (msg_sender alice) = (0, 0, 0, 0)"
    by (simp add: stub_runs getPlayerStats_def)
  note T = cancelGame_effects [OF refl c, unfolded Let_def act]
  from T have r: "result (games ?s' 1) = DRAW" by (elim conjE)
  from T have i: "isResolved (games ?s' 1)" by (elim conjE)
  from T have "\<forall>p. getPlayerStats ?s' p = getPlayerStats ?s p" by (elim conjE)
  with old have g: "getPlayerStats ?s' (msg_sender alice) = (0, 0, 0, 0)" by simp
  have c2: "cancelGame alice ?u = Inr (exec stub_env ?u (alice, CancelGame))"
    by (simp add: stub_runs)
  have res: "resolveGame stub_env ?u 1 (abi_encode_uint8 3) [1] = Inr ?u'"
    by (simp add: stub_runs)
  have dr: "result (games ?u' 1) = DRAW" by (simp add: stub_runs)
  have pl: "player (games ?u 1) = msg_sender alice" by (simp add: stub_runs)
  have d0: "unat (draws (playerStats ?u (msg_sender alice))) = 0" by (simp add: stub_runs)
  note U = cancelGame_effects [OF refl c2, unfolded Let_def]
  from U have "\<forall>gid ct pr s2. resolveGame stub_env ?u gid ct pr = Inr s2 \<and>
      result (games s2 gid) = DRAW \<longrightarrow>
        unat (totalGames (playerStats s2 (player (games ?u gid)))) =
          unat (totalGames (playerStats ?u (player (games ?u gid)))) + 1 \<and>
        unat (draws (playerStats s2 (player (games ?u gid)))) =
          unat (draws (playerStats ?u (player (games ?u gid)))) + 1 \<and>
        wins (playerStats s2 (player (games ?u gid))) = wins (playerStats ?u (player (games ?u gid))) \<and>
        losses (playerStats s2 (player (games ?u gid))) =
          losses (playerStats ?u (player (games ?u gid)))"
    by (elim conjE)
  from this [rule_format, OF conjI [OF res dr]] have
    "unat (draws (playerStats ?u' (player (games ?u 1)))) =
          unat (draws (playerStats ?u (player (games ?u 1)))) + 1"
    by (elim conjE)
  with pl d0 have d1: "unat (draws (playerStats ?u' (msg_sender alice))) = 1" by simp
  from c r i g res dr d1 show ?thesis by blast
qed

text \<open>
  C8. The ids that the successful \<open>playGame\<close> calls of a run return are strictly
  increasing, hence distinct, and they are exactly the ids from 1 to below the counter.
  The next successful \<open>playGame\<close> returns the counter, which is larger than every id
  returned before, and increments it without wrapping. An id once returned stays issued
  after any further transactions, and \<open>getGame\<close> keeps returning its record with the
  same player, opponent move and creation time.
\<close>

theorem game_ids_unique_increasing:
  "sorted_wrt (<) (created_ids e constructor cs) \<and>
   distinct (created_ids e constructor cs) \<and>
   set (created_ids e constructor cs) = {g. issued (run e constructor cs) g} \<and>
   (\<forall>t em ip s' gid. playGame e t (run e constructor cs) em ip = Inr (s', gid) \<longrightarrow>
      gid = gameIdCounter (run e constructor cs) \<and>
      unat (gameIdCounter s') = unat gid + 1 \<and>
      gid \<notin> set (created_ids e constructor cs) \<and>
      (\<forall>g \<in> set (created_ids e constructor cs). g < gid)) \<and>
   (\<forall>g cs'. g \<in> set (created_ids e constructor cs) \<longrightarrow>
      g \<in> set (created_ids e constructor (cs @ cs')) \<and>
      getGame (run e constructor (cs @ cs')) g =
        Inr (player (games (run e constructor cs) g),
             opponentMove (games (run e constructor cs) g),
             createdAt (games (run e constructor cs) g),
             isResolved (games (run e constructor (cs @ cs')) g),
             result (games (run e constructor (cs @ cs')) g),
             revealedPlayerMove (games (run e constructor (cs @ cs')) g),
             resolveRequested (games (run e constructor (cs @ cs')) g)))"
proof -
  let ?s = "run e constructor cs"
  let ?ids = "created_ids e constructor cs"
  have srt: "sorted_wrt (<) ?ids"
    using created_ids_interval [of e constructor cs] by simp
  then have dst: "distinct ?ids" by (simp add: strict_sorted_iff)
  have iss: "set ?ids = {g. issued ?s g}" by (rule created_ids_issued)
  have new: "gid = gameIdCounter ?s \<and> unat (gameIdCounter s') = unat gid + 1 \<and>
      gid \<notin> set ?ids \<and> (\<forall>g \<in> set ?ids. g < gid)"
    if p: "playGame e t ?s em ip = Inr (s', gid)" for t em ip s' gid
  proof -
    from playGame_Inr [OF p] have "gid = gameIdCounter ?s" "gameIdCounter ?s \<noteq> - 1"
      "gameIdCounter s' = gameIdCounter ?s + 1"
      by auto
    then show ?thesis by (simp add: iss issued_def unat_plus1)
  qed
  have keep: "g \<in> set (created_ids e constructor (cs @ cs')) \<and>
      getGame (run e constructor (cs @ cs')) g =
        Inr (player (games ?s g), opponentMove (games ?s g), createdAt (games ?s g),
             isResolved (games (run e constructor (cs @ cs')) g),
             result (games (run e constructor (cs @ cs')) g),
             revealedPlayerMove (games (run e constructor (cs @ cs')) g),
             resolveRequested (games (run e constructor (cs @ cs')) g))"
    if g: "g \<in> set ?ids" for g cs'
  proof -
    let ?s2 = "run e constructor (cs @ cs')"
    have fr: "frame ?s ?s2" unfolding run_append by (rule frame_run)
    from g have lt: "g < gameIdCounter ?s" and pos: "0 < g" by (simp_all add: iss issued_def)
    from frame_lt [OF fr lt] have lt2: "g < gameIdCounter ?s2" .
    with pos have "g \<in> set (created_ids e constructor (cs @ cs'))"
      by (simp add: created_ids_issued issued_def)
    moreover from fr lt have "player (games ?s2 g) = player (games ?s g)"
      "opponentMove (games ?s2 g) = opponentMove (games ?s g)"
      "createdAt (games ?s2 g) = createdAt (games ?s g)"
      by (simp_all add: frame_def)
    ultimately show ?thesis using lt2 by (simp add: getGame_def Let_def)
  qed
  from srt dst iss new keep show ?thesis by blast
qed

theorem game_ids_unique_increasing_witness:
  "created_ids stub_env constructor
     [(alice, PlayGame 5 []), (alice, CancelGame), (alice, PlayGame 6 [])] = [1, 2] \<and>
   (1 :: uint256) \<in> set (created_ids stub_env constructor game_created) \<and>
   getGame (run stub_env constructor (game_created @ [(alice, CancelGame), (alice, PlayGame 6 [])])) 1 =
     Inr (msg_sender alice, 3, block_timestamp alice, True, DRAW, 0, False)"
proof -
  have a: "created_ids stub_env constructor
     [(alice, PlayGame 5 []), (alice, CancelGame), (alice, PlayGame 6 [])] = [1, 2]"
    by (simp add: stub_runs)
  have b: "(1 :: uint256) \<in> set (created_ids stub_env constructor game_created)"
    by (simp add: stub_runs)
  from game_ids_unique_increasing [of stub_env game_created] have
    "\<forall>g cs'. g \<in> set (created_ids stub_env constructor game_created) \<longrightarrow>
      g \<in> set (created_ids stub_env constructor (game_created @ cs')) \<and>
      getGame (run stub_env constructor (game_created @ cs')) g =
        Inr (player (games (run stub_env constructor game_created) g),
             opponentMove (games (run stub_env constructor game_created) g),
             createdAt (games (run stub_env constructor game_created) g),
             isResolved (games (run stub_env constructor (game_created @ cs')) g),
             result (games (run stub_env constructor (game_created @ cs')) g),
             revealedPlayerMove (games (run stub_env constructor (game_created @ cs')) g),
             resolveRequested (games (run stub_env constructor (game_created @ cs')) g))"
    by (elim conjE)
  from this [rule_format, OF b, of "[(alice, CancelGame), (alice, PlayGame 6 [])]"]
  have "getGame (run stub_env constructor
       (game_created @ [(alice, CancelGame), (alice, PlayGame 6 [])])) 1 =
     Inr (msg_sender alice, 3, block_timestamp alice, True, DRAW, 0, False)"
    by (simp add: stub_runs)
  with a b show ?thesis by blast
qed

text \<open>
  C9. Whatever the timestamp, the previous randomness, the counter, the caller and the
  hash function are, \<open>generateRandomMove\<close> returns a value in \<open>{1, 2, 3}\<close>: the hash
  of the packed inputs modulo 3, plus 1. \<open>playGame\<close> stores that value in the new game,
  and no later transaction changes it; every issued game of a reachable state has an
  opponent move in \<open>{1, 2, 3}\<close>.
\<close>

theorem opponentMove_generated_once:
  "generateRandomMove e t s \<in> {1, 2, 3} \<and>
   unat (generateRandomMove e t s) =
     unat (keccak256 e (be_bytes 32 (block_timestamp t) @ be_bytes 32 (block_prevrandao t) @
             be_bytes 32 (gameIdCounter s) @ be_bytes 20 (msg_sender t))) mod 3 + 1 \<and>
   (\<forall>em ip s' gid cs. playGame e t s em ip = Inr (s', gid) \<longrightarrow>
      opponentMove (games (run e s' cs) gid) = generateRandomMove e t s) \<and>
   (\<forall>cs g. issued (run e constructor cs) g \<longrightarrow>
      opponentMove (games (run e constructor cs) g) \<in> {1, 2, 3})"
proof -
  have a: "generateRandomMove e t s \<in> {1, 2, 3}"
    using generateRandomMove_range [of e t s] by (simp add: ROCK_def PAPER_def SCISSORS_def)
  have c: "opponentMove (games (run e s' cs) gid) = generateRandomMove e t s"
    if "playGame e t s em ip = Inr (s', gid)" for em ip s' gid cs
  proof -
    from playGame_Inr [OF that] have
      "gid < gameIdCounter s'" "opponentMove (games s' gid) = generateRandomMove e t s"
      by (auto simp: less_plus1)
    with frame_run [of s' e cs] show ?thesis by (simp add: frame_def)
  qed
  have d: "opponentMove (games (run e constructor cs) g) \<in> {1, 2, 3}"
    if "issued (run e constructor cs) g" for cs g
    using record_inv_run [of e cs] that
    by (simp add: record_inv_def ROCK_def PAPER_def SCISSORS_def)
  from a generateRandomMove_unat [of e t s] c d show ?thesis by blast
qed

theorem opponentMove_generated_once_witness:
  "playGame stub_env alice constructor 5 [] = Inr (run stub_env constructor game_created, 1) \<and>
   generateRandomMove stub_env alice constructor = 3 \<and>
   opponentMove (games (run stub_env (run stub_env constructor game_created)
      [(alice, RequestResolve 1), (alice, CancelGame)]) 1) = 3"
proof -
  have p: "playGame stub_env alice constructor 5 [] = Inr (run stub_env constructor game_created, 1)"
    by (simp add: stub_runs)
  have g: "generateRandomMove stub_env alice constructor = 3" by (simp add: stub_runs)
  from opponentMove_generated_once [of stub_env alice constructor] have
    "\<forall>em ip s' gid cs. playGame stub_env alice constructor em ip = Inr (s', gid) \<longrightarrow>
      opponentMove (games (run stub_env s' cs) gid) = generateRandomMove stub_env alice constructor"
    by (elim conjE)
  from this [rule_format, OF p] g
  have "opponentMove (games (run stub_env (run stub_env constructor game_created)
      [(alice, RequestResolve 1), (alice, CancelGame)]) 1) = 3"
    by simp
  with p g show ?thesis by blast
qed

text \<open>
  C10. \<open>determineWinner\<close> returns a result for every pair of \<open>uint8\<close> values, and
  for every pair that is none of the six win or loss combinations, in particular when a
  value lies outside \<open>{1, 2, 3}\<close>, its last branch returns \<open>DRAW\<close>: such an input
  gives the same result as a draw.
\<close>

theorem determineWinner_default_draw:
  "determineWinner p q \<in> {DRAW, WIN, LOSS} \<and>
   ((p, q) \<notin> {(1, 3), (2, 1), (3, 2), (3, 1), (1, 2), (2, 3)} \<longrightarrow> determineWinner p q = DRAW)"
  by (simp add: determineWinner_cases)

theorem determineWinner_default_draw_witness:
  "((0 :: uint8), (3 :: uint8)) \<notin> {(1, 3), (2, 1), (3, 2), (3, 1), (1, 2), (2, 3)} \<and>
   determineWinner 0 3 = DRAW \<and> determineWinner 0 3 = determineWinner 3 3"
proof -
  have n: "((0 :: uint8), (3 :: uint8)) \<notin> {(1, 3), (2, 1), (3, 2), (3, 1), (1, 2), (2, 3)}"
    by simp
  from determineWinner_default_draw [of 0 3] have
    "((0 :: uint8), (3 :: uint8)) \<notin> {(1, 3), (2, 1), (3, 2), (3, 1), (1, 2), (2, 3)} \<longrightarrow>
       determineWinner 0 3 = DRAW"
    by (rule conjunct2)
  from this n have d: "determineWinner 0 3 = DRAW" by (rule mp)
  have "determineWinner 3 3 = DRAW" by (simp add: determineWinner_def)
  with n d show ?thesis by simp
qed

end
